theory Spec2Isabelle
  imports Main "HOL-Library.Word" "HOL-Library.Sublist"
begin

section \<open>Package encoding: buffers, wires and parse errors\<close>

subsection \<open>Go's int and the allocator\<close>

text \<open>
  Lengths, sums of lengths and offsets are values of Go's type \<^verbatim>\<open>int\<close>, a signed
  integer of 32 or 64 bits whose addition wraps around. A platform gives the
  width of \<^verbatim>\<open>int\<close> and the largest number of bytes \<^verbatim>\<open>make\<close> can hand out: \<^verbatim>\<open>make\<close>
  panics on a negative length and on one that is out of its range, and the
  program ends when memory runs out. An \<^verbatim>\<open>int\<close> is an integer here, and every
  addition of the source goes through \<open>int_add\<close>.
\<close>

record platform =
  int_bits :: nat
  max_alloc :: nat

definition int_wrap :: "nat \<Rightarrow> int \<Rightarrow> int" where
  "int_wrap bits x = (x + 2 ^ (bits - 1)) mod 2 ^ bits - 2 ^ (bits - 1)"

definition int_add :: "platform \<Rightarrow> int \<Rightarrow> int \<Rightarrow> int" where
  "int_add p x y = int_wrap (int_bits p) (x + y)"

subsection \<open>Buffer and Wire\<close>

text \<open>
  \<^verbatim>\<open>type Buffer []byte\<close> and \<^verbatim>\<open>type Wire []Buffer\<close>. On the value level a Buffer is
  the list of its bytes and a Wire the list of its Buffers; the Buffers of a Wire
  may be one and the same slice many times over, so the sum of their lengths is
  not bounded by the memory they take.
\<close>

type_synonym byte = "8 word"
type_synonym Buffer = "byte list"
type_synonym Wire = "Buffer list"

text \<open>
  \<^verbatim>\<open>make([]byte, n)\<close>: \<open>n\<close> zero bytes; \<open>None\<close> when it panics or memory does not
  suffice.
\<close>

definition make_buffer :: "platform \<Rightarrow> int \<Rightarrow> Buffer option" where
  "make_buffer p n =
     (if n < 0 \<or> int (max_alloc p) < n then None else Some (replicate (nat n) 0))"

text \<open>
  The builtin \<^verbatim>\<open>copy(dst, src)\<close> copies \<open>min (len dst) (len src)\<close> bytes to the front
  of \<open>dst\<close> and returns that count. The model returns the count and \<open>dst\<close> as it is
  afterwards.
\<close>

definition copy_bytes :: "Buffer \<Rightarrow> Buffer \<Rightarrow> nat \<times> Buffer" where
  "copy_bytes dst src =
     (let k = min (length dst) (length src) in (k, take k src @ drop k dst))"

text \<open>
  \<^verbatim>\<open>copy(b[bp:], v)\<close>: the slice \<open>b[bp:]\<close> shares the array of \<open>b\<close>, so the copy
  writes into \<open>b\<close> from offset \<open>bp\<close> on. The slice expression panics when \<open>bp\<close> is
  negative or \<open>bp > len b\<close> (here \<open>cap b = len b\<close>, as \<open>b\<close> comes from
  \<^verbatim>\<open>make([]byte, n)\<close>); the panic is the value \<open>None\<close>.
\<close>

definition copy_at :: "Buffer \<Rightarrow> int \<Rightarrow> Buffer \<Rightarrow> (nat \<times> Buffer) option" where
  "copy_at b bp v =
     (if bp < 0 \<or> int (length b) < bp then None
      else (let (k, d) = copy_bytes (drop (nat bp) b) v in Some (k, take (nat bp) b @ d)))"

text \<open>
  The second loop of \<^verbatim>\<open>Wire.Join\<close>:
  \<^verbatim>\<open>for _, v := range w[1:] { bp += copy(b[bp:], v) }\<close>, followed by \<^verbatim>\<open>return b\<close>.
\<close>

fun join_loop :: "platform \<Rightarrow> Buffer \<Rightarrow> int \<Rightarrow> Wire \<Rightarrow> Buffer option" where
  "join_loop p b bp [] = Some b"
| "join_loop p b bp (v # vs) =
     (case copy_at b bp v of
        None \<Rightarrow> None
      | Some (k, b') \<Rightarrow> join_loop p b' (int_add p bp (int k)) vs)"

text \<open>
  \<^verbatim>\<open>func (w Wire) Join() []byte\<close>. The first loop sums the lengths in an \<^verbatim>\<open>int\<close>
  (\<^verbatim>\<open>n += len(v)\<close>), \<^verbatim>\<open>make([]byte, n)\<close> gives \<open>n\<close> zero bytes, the first Buffer is
  copied to the front and the loop above copies the rest. The result is \<open>None\<close>
  when \<^verbatim>\<open>make\<close> fails or a slice expression panics.
\<close>

definition Join :: "platform \<Rightarrow> Wire \<Rightarrow> Buffer option" where
  "Join p w =
     (if length w = 0 then Some []
      else if length w = 1 then Some (w ! 0)
      else
        (let n = fold (\<lambda>v n. int_add p n (int (length v))) w 0
         in case make_buffer p n of
              None \<Rightarrow> None
            | Some b \<Rightarrow>
                (let (bp, b1) = copy_bytes b (w ! 0)
                 in join_loop p b1 (int bp) (drop 1 w))))"

text \<open>
  The byte at global offset \<open>i\<close> of the logically contiguous stream a Wire stands
  for: the offset is looked up Buffer by Buffer.
\<close>

fun stream_byte :: "Wire \<Rightarrow> nat \<Rightarrow> byte option" where
  "stream_byte [] i = None"
| "stream_byte (v # w) i =
     (if i < length v then Some (v ! i) else stream_byte w (i - length v))"

subsection \<open>Parse errors\<close>

text \<open>
  Modelled from the spec: the type \<^verbatim>\<open>TLNum\<close>, whose declaration is in another file
  of the package. The spec has it as "a non-negative integer used for both TLV
  type numbers and length fields".
\<close>

type_synonym TLNum = nat

text \<open>
  The error values of the package. \<open>errorString\<close> is what \<^verbatim>\<open>errors.New\<close> returns
  (\<open>ErrBufferOverflow\<close> and \<open>ErrIncorrectDigest\<close> below). The field \<^verbatim>\<open>Err error\<close> is an
  interface value: \<open>None\<close> is \<^verbatim>\<open>nil\<close>.
\<close>

datatype error =
    errorString string
  | ErrFormat string
  | ErrNotFound string
  | ErrUnrecognizedField TLNum
  | ErrSkipRequired TLNum
  | ErrFailToParse TLNum "error option"
  | ErrUnexpected "error option"

definition ErrBufferOverflow :: error where
  "ErrBufferOverflow =
     errorString ''Buffer overflow when parsing. One of the TLV Length is wrong''"

definition ErrIncorrectDigest :: error where
  "ErrIncorrectDigest = errorString ''The sha256 digest is missing or incorrect''"

text \<open>The verb \<^verbatim>\<open>%d\<close> of \<^verbatim>\<open>fmt.Sprintf\<close> on an unsigned integer: its decimal digits.\<close>

definition digit_char :: "nat \<Rightarrow> char" where
  "digit_char d = ''0123456789'' ! d"

function fmt_d :: "nat \<Rightarrow> string" where
  "fmt_d n =
     (if n < 10 then [digit_char n]
      else fmt_d (n div 10) @ [digit_char (n mod 10)])"
  by pat_completeness auto
termination
  by (relation "measure id") auto

declare fmt_d.simps [simp del]

text \<open>
  The \<^verbatim>\<open>Error()\<close> methods. The verb \<^verbatim>\<open>%v\<close> on an error value prints its \<^verbatim>\<open>Error()\<close>
  string, and \<^verbatim>\<open><nil>\<close> on a nil interface.
\<close>

fun Error :: "error \<Rightarrow> string" where
  "Error (errorString s) = s"
| "Error (ErrFormat m) = m"
| "Error (ErrNotFound k) = k @ '': not found''"
| "Error (ErrUnrecognizedField t) =
     ''There exists an unrecognized field that has a critical type number: '' @ fmt_d t"
| "Error (ErrSkipRequired t) =
     ''The required field of type '' @ fmt_d t @ '' is missing in the wire''"
| "Error (ErrFailToParse t e) =
     ''Failed to parse field '' @ fmt_d t @ '': '' @
       (case e of None \<Rightarrow> ''<nil>'' | Some e' \<Rightarrow> Error e')"
| "Error (ErrUnexpected e) =
     ''Unexpected error happened in parsing: '' @
       (case e of None \<Rightarrow> ''<nil>'' | Some e' \<Rightarrow> Error e')"

text \<open>
  The \<^verbatim>\<open>Unwrap()\<close> methods of \<open>ErrFailToParse\<close> and \<open>ErrUnexpected\<close> return the field
  \<open>Err\<close>. The other error types have no such method, which is \<open>None\<close> here, as
  \<^verbatim>\<open>errors.Unwrap\<close> gives for them.
\<close>

fun Unwrap :: "error \<Rightarrow> error option" where
  "Unwrap (ErrFailToParse t e) = e"
| "Unwrap (ErrUnexpected e) = e"
| "Unwrap _ = None"

text \<open>Reading a decimal string back, to say what number a digit string names.\<close>

definition digit_val :: "char \<Rightarrow> nat" where
  "digit_val c = of_char c - 48"

definition dec_val :: "string \<Rightarrow> nat" where
  "dec_val s = foldl (\<lambda>a c. 10 * a + digit_val c) 0 s"

subsection \<open>Join on slices in a store\<close>

text \<open>
  Whether \<^verbatim>\<open>Join\<close> returns one of its Buffers or a new one is a question of
  aliasing, so here a slice is a header (backing array, offset, length) and the
  arrays live in a store: the array at address \<open>a\<close> is \<open>h ! a\<close>, and an allocation
  appends an array, so the new address \<open>length h\<close> is not an address of \<open>h\<close>.
  A slice with no array of its own (\<^verbatim>\<open>nil\<close>, the empty literal \<^verbatim>\<open>[]byte{}\<close>, or the
  result of \<^verbatim>\<open>make\<close> at length 0, for which nothing is allocated) has \<open>arr = None\<close>.
  Capacities are left out: the only slice \<^verbatim>\<open>Join\<close> reslices is the one it makes,
  whose capacity is its length.
\<close>

type_synonym addr = nat
type_synonym heap = "Buffer list"

record slice =
  arr :: "addr option"
  off :: nat
  len :: nat

definition valid_slice :: "heap \<Rightarrow> slice \<Rightarrow> bool" where
  "valid_slice h s =
     (case arr s of
        None \<Rightarrow> len s = 0
      | Some a \<Rightarrow> a < length h \<and> off s + len s \<le> length (h ! a))"

definition bytes_of :: "heap \<Rightarrow> slice \<Rightarrow> Buffer" where
  "bytes_of h s =
     (case arr s of
        None \<Rightarrow> []
      | Some a \<Rightarrow> if a < length h then take (len s) (drop (off s) (h ! a)) else [])"

definition empty_slice :: slice where
  "empty_slice = \<lparr>arr = None, off = 0, len = 0\<rparr>"

text \<open>
  \<^verbatim>\<open>make([]byte, n)\<close> on the store: it fails as \<open>make_buffer\<close> does, allocates
  nothing for \<open>n = 0\<close>, and otherwise appends an array of \<open>n\<close> zero bytes and
  returns the slice of all of it.
\<close>

definition make_bytes :: "platform \<Rightarrow> heap \<Rightarrow> int \<Rightarrow> (slice \<times> heap) option" where
  "make_bytes p h n =
     (if n < 0 \<or> int (max_alloc p) < n then None
      else if n = 0 then Some (empty_slice, h)
      else Some (\<lparr>arr = Some (length h), off = 0, len = nat n\<rparr>, h @ [replicate (nat n) 0]))"

text \<open>The slice expression \<^verbatim>\<open>s[bp:]\<close>; \<open>None\<close> is the panic when \<open>bp\<close> is out of range.\<close>

definition reslice_from :: "slice \<Rightarrow> int \<Rightarrow> slice option" where
  "reslice_from s bp =
     (if bp < 0 \<or> int (len s) < bp then None
      else Some (s\<lparr>off := off s + nat bp, len := len s - nat bp\<rparr>))"

text \<open>
  \<^verbatim>\<open>copy(dst, src)\<close> on the store: the bytes of \<open>src\<close> are read first and then
  written into the array of \<open>dst\<close> at its offset.
\<close>

definition copy_slices :: "heap \<Rightarrow> slice \<Rightarrow> slice \<Rightarrow> nat \<times> heap" where
  "copy_slices h dst src =
     (let k = min (len dst) (len src);
          d = take k (bytes_of h src)
      in case arr dst of
           None \<Rightarrow> (k, h)
         | Some a \<Rightarrow> (k, h[a := take (off dst) (h ! a) @ d @ drop (off dst + k) (h ! a)]))"

fun join_loop_heap ::
  "platform \<Rightarrow> heap \<Rightarrow> slice \<Rightarrow> int \<Rightarrow> slice list \<Rightarrow> (slice \<times> heap) option" where
  "join_loop_heap p h b bp [] = Some (b, h)"
| "join_loop_heap p h b bp (v # vs) =
     (case reslice_from b bp of
        None \<Rightarrow> None
      | Some d \<Rightarrow>
          (let (k, h') = copy_slices h d v in join_loop_heap p h' b (int_add p bp (int k)) vs))"

text \<open>
  \<^verbatim>\<open>Wire.Join\<close> on the store, branch by branch as in the source: the empty literal,
  the element \<open>w[0]\<close> itself, or the slice \<^verbatim>\<open>make\<close> returns, filled by the copies.
\<close>

definition Join_heap :: "platform \<Rightarrow> heap \<Rightarrow> slice list \<Rightarrow> (slice \<times> heap) option" where
  "Join_heap p h w =
     (if length w = 0 then Some (empty_slice, h)
      else if length w = 1 then Some (w ! 0, h)
      else
        (let n = fold (\<lambda>v n. int_add p n (int (len v))) w 0
         in case make_bytes p h n of
              None \<Rightarrow> None
            | Some (b, h1) \<Rightarrow>
                (let (bp, h2) = copy_slices h1 b (w ! 0)
                 in join_loop_heap p h2 b (int bp) (drop 1 w))))"

subsection \<open>ParseReader\<close>

text \<open>
  Modelled from the spec: the methods \<^verbatim>\<open>Range\<close>, \<^verbatim>\<open>Pos\<close> and \<^verbatim>\<open>Length\<close> of a
  \<^verbatim>\<open>ParseReader\<close>. The file at hand declares the interface only; the readers that
  implement it are in other files. The spec has a reader positioned at byte
  offset \<open>p\<close> within a Wire of length \<open>L\<close>, and \<open>Range(a,b)\<close> "returns a Wire covering
  absolute offsets [a,b), zero-copy; does not move cursor". The Wire returned is
  made of the pieces of the underlying Buffers that lie within \<open>[a,b)\<close>, in order;
  the reader is returned as it was. The interface declares \<^verbatim>\<open>Length() int\<close>: the
  length is the sum of the lengths of the Buffers as an \<^verbatim>\<open>int\<close>.
\<close>

record ParseReader =
  wire :: Wire
  pos :: nat

definition Length :: "platform \<Rightarrow> ParseReader \<Rightarrow> int" where
  "Length p r = fold (\<lambda>v n. int_add p n (int (length v))) (wire r) 0"



section \<open>Package schema: the schema tree\<close>

subsection \<open>Names, patterns and matchings\<close>

text \<open>
  Modelled from the spec: the types \<^verbatim>\<open>enc.Component\<close>, \<^verbatim>\<open>enc.Name\<close>,
  \<^verbatim>\<open>enc.NamePattern\<close> and \<^verbatim>\<open>enc.Matching\<close>, whose declarations are in other files of
  the package. In the spec a Component has a type number and a value Buffer, a
  Name is a sequence of Components, the components of a NamePattern are either
  literal or variable slots with a tag name and an optional type constraint, and
  a Matching maps slot tags to the Buffers captured. \<^verbatim>\<open>Tree.intHandler\<close> reads the
  fields \<open>Typ\<close> and \<open>Val\<close> of a Component and writes a Matching at string keys.
\<close>

record Component =
  Typ :: TLNum
  Val :: Buffer

type_synonym Name = "Component list"

datatype ComponentPattern =
    Literal Component
  | Slot string "TLNum option"

type_synonym NamePattern = "ComponentPattern list"

type_synonym Matching = "string \<rightharpoonup> Buffer"

text \<open>
  Modelled from the spec: the type numbers ImplicitSha256Digest = 1 and
  ParametersSha256Digest = 2, declared in another file of the package. The spec
  gives no value for \<^verbatim>\<open>enc.TypeInvalidComponent\<close>, which is a parameter of the
  environment below.
\<close>

definition TypeImplicitSha256DigestComponent :: TLNum where
  "TypeImplicitSha256DigestComponent = 1"

definition TypeParametersSha256DigestComponent :: TLNum where
  "TypeParametersSha256DigestComponent = 2"

subsection \<open>The tree, its collaborators and the calls it makes\<close>

text \<open>
  \<^verbatim>\<open>Tree.Root\<close> and \<^verbatim>\<open>Tree.Engine\<close> are interface values: \<open>None\<close> is \<^verbatim>\<open>nil\<close>, and
  \<open>Some r\<close> refers to an object whose state lives outside the struct. The state of
  all those objects is the component \<open>objs\<close>, of a type the tree knows nothing
  about. The component \<open>calls\<close> records, in order, each call the methods of \<^verbatim>\<open>Tree\<close>
  make on a node or an engine. The lock is left out: the model is of one thread.
\<close>

type_synonym node_ref = nat
type_synonym engine_ref = nat
type_synonym ReplyFunc = nat
type_synonym Time = nat

record Interest =
  Name :: Name

datatype call =
    SetAttachedPrefix_call node_ref Name
  | OnAttach_call node_ref NamePattern "engine_ref option"
  | AttachHandler_call engine_ref Name
  | AttachedPrefix_call node_ref
  | DetachHandler_call engine_ref Name
  | OnDetach_call node_ref
  | Match_call node_ref Name
  | OnInterest_call node_ref Interest Wire Wire ReplyFunc Time "Matching option"
  | BaseNode_new_call node_ref
  | Init_call node_ref
  | PutNode_call node_ref NamePattern "node_ref option"

record 'w Tree =
  Root :: "node_ref option"
  Engine :: "engine_ref option"
  objs :: 'w
  calls :: "call list"

text \<open>
  The methods of \<^verbatim>\<open>NTNode\<close> and \<^verbatim>\<open>ndn.Engine\<close> that \<^verbatim>\<open>Tree\<close> calls are implemented in
  other files. Each is a parameter: a function of the receiver, the arguments and the
  object state, returning its result and the object state afterwards. A Matching
  is a Go map, so \<open>None\<close> is the nil map. \<open>BaseNode_new\<close> is the allocation
  \<^verbatim>\<open>&BaseNode{}\<close>.
\<close>

record 'w env =
  SetAttachedPrefix :: "node_ref \<Rightarrow> Name \<Rightarrow> 'w \<Rightarrow> error option \<times> 'w"
  OnAttach :: "node_ref \<Rightarrow> NamePattern \<Rightarrow> engine_ref option \<Rightarrow> 'w \<Rightarrow> error option \<times> 'w"
  AttachHandler :: "engine_ref \<Rightarrow> Name \<Rightarrow> 'w \<Rightarrow> error option \<times> 'w"
  AttachedPrefix :: "node_ref \<Rightarrow> 'w \<Rightarrow> Name"
  DetachHandler :: "engine_ref \<Rightarrow> Name \<Rightarrow> 'w \<Rightarrow> error option \<times> 'w"
  OnDetach :: "node_ref \<Rightarrow> 'w \<Rightarrow> 'w"
  node_Match :: "node_ref \<Rightarrow> Name \<Rightarrow> 'w \<Rightarrow> (node_ref option \<times> Matching option) \<times> 'w"
  OnInterest ::
    "node_ref \<Rightarrow> Interest \<Rightarrow> Wire \<Rightarrow> Wire \<Rightarrow> ReplyFunc \<Rightarrow> Time \<Rightarrow> Matching option \<Rightarrow> 'w \<Rightarrow> 'w"
  BaseNode_new :: "'w \<Rightarrow> node_ref \<times> 'w"
  Init :: "node_ref \<Rightarrow> 'w \<Rightarrow> 'w"
  node_PutNode :: "node_ref \<Rightarrow> NamePattern \<Rightarrow> node_ref option \<Rightarrow> 'w \<Rightarrow> error option \<times> 'w"
  TypeInvalidComponent :: TLNum

text \<open>How a call of a method of \<^verbatim>\<open>Tree\<close> ends: it returns, or it panics.\<close>

datatype panic = NilDereference | IndexOutOfRange | NilMapAssignment

datatype 'a outcome = Return 'a | Panic panic

definition record_call :: "'w Tree \<Rightarrow> 'w \<Rightarrow> call list \<Rightarrow> 'w Tree" where
  "record_call t s cs = t\<lparr>objs := s, calls := calls t @ cs\<rparr>"

subsection \<open>Attach and Detach\<close>

text \<open>
  \<^verbatim>\<open>func (t *Tree) Attach(prefix enc.Name, engine ndn.Engine) error\<close>. The loop
  \<^verbatim>\<open>path[i] = c\<close> turns each Component of the prefix (\<open>pfx\<close> below) into a
  literal pattern.
\<close>

definition Attach ::
  "'w env \<Rightarrow> Name \<Rightarrow> engine_ref option \<Rightarrow> 'w Tree \<Rightarrow> error option outcome \<times> 'w Tree" where
  "Attach env pfx engine t =
     (case Root t of
        None \<Rightarrow> (Panic NilDereference, t)
      | Some root \<Rightarrow>
          (let (err1, s1) = SetAttachedPrefix env root pfx (objs t);
               t1 = record_call t s1 [SetAttachedPrefix_call root pfx]
           in case err1 of
                Some e \<Rightarrow> (Return (Some e), t1)
              | None \<Rightarrow>
                  (let path = map Literal pfx;
                       (err2, s2) = OnAttach env root path engine s1;
                       t2 = record_call t1 s2 [OnAttach_call root path engine]
                   in case err2 of
                        Some e \<Rightarrow> (Return (Some e), t2)
                      | None \<Rightarrow>
                          (case engine of
                             None \<Rightarrow> (Panic NilDereference, t2)
                           | Some eng \<Rightarrow>
                               (let (err3, s3) = AttachHandler env eng pfx s2;
                                    t3 = record_call t2 s3 [AttachHandler_call eng pfx]
                                in case err3 of
                                     Some e \<Rightarrow> (Return (Some e), t3)
                                   | None \<Rightarrow> (Return None, t3\<lparr>Engine := Some eng\<rparr>))))))"

text \<open>
  \<^verbatim>\<open>func (t *Tree) Detach()\<close>. The argument \<^verbatim>\<open>t.Root.AttachedPrefix()\<close> is evaluated
  before \<^verbatim>\<open>DetachHandler\<close> is called; the error \<^verbatim>\<open>DetachHandler\<close> may return is
  dropped. No statement of \<^verbatim>\<open>Detach\<close> assigns to \<^verbatim>\<open>t.Engine\<close>.
\<close>

definition Detach :: "'w env \<Rightarrow> 'w Tree \<Rightarrow> unit outcome \<times> 'w Tree" where
  "Detach env t =
     (case Engine t of
        None \<Rightarrow> (Return (), t)
      | Some eng \<Rightarrow>
          (case Root t of
             None \<Rightarrow> (Panic NilDereference, t)
           | Some root \<Rightarrow>
               (let p = AttachedPrefix env root (objs t);
                    t1 = record_call t (objs t) [AttachedPrefix_call root];
                    (err, s1) = DetachHandler env eng p (objs t1);
                    t2 = record_call t1 s1 [DetachHandler_call eng p];
                    s2 = OnDetach env root s1
                in (Return (), record_call t2 s2 [OnDetach_call root]))))"

subsection \<open>Match and the Interest handler\<close>

text \<open>\<^verbatim>\<open>func (t *Tree) Match(name enc.Name) (NTNode, enc.Matching)\<close>.\<close>

definition Match ::
  "'w env \<Rightarrow> Name \<Rightarrow> 'w Tree \<Rightarrow> (node_ref option \<times> Matching option) outcome \<times> 'w Tree" where
  "Match env name t =
     (case Root t of
        None \<Rightarrow> (Panic NilDereference, t)
      | Some root \<Rightarrow>
          (let (r, s1) = node_Match env root name (objs t)
           in (Return r, record_call t s1 [Match_call root name])))"

text \<open>
  The assignment \<^verbatim>\<open>matching[key] = val\<close> of the handler: it panics on a nil map.
\<close>

definition set_matching :: "Matching option \<Rightarrow> string \<Rightarrow> Buffer \<Rightarrow> Matching option outcome" where
  "set_matching matching key val =
     (case matching of
        None \<Rightarrow> Panic NilMapAssignment
      | Some m \<Rightarrow> Return (Some (m(key \<mapsto> val))))"

text \<open>
  The \<^verbatim>\<open>if\<close> and \<^verbatim>\<open>switch\<close> on \<^verbatim>\<open>extraComp.Typ\<close> that follow the match in
  \<^verbatim>\<open>Tree.intHandler\<close>.
\<close>

definition add_digest :: "TLNum \<Rightarrow> Component \<Rightarrow> Matching option \<Rightarrow> Matching option outcome" where
  "add_digest invalid extraComp matching =
     (if Typ extraComp \<noteq> invalid then
        (if Typ extraComp = TypeParametersSha256DigestComponent then
           set_matching matching ''params-sha256'' (Val extraComp)
         else if Typ extraComp = TypeImplicitSha256DigestComponent then
           set_matching matching ''sha256digest'' (Val extraComp)
         else Return matching)
      else Return matching)"

text \<open>
  \<^verbatim>\<open>func (t *Tree) intHandler(interest, rawInterest, sigCovered, reply, deadline)\<close>.
  The index expression \<^verbatim>\<open>matchName[len(matchName)-1]\<close> comes first and panics on a
  name of no component; \<^verbatim>\<open>enc.Component{}\<close> has type number 0 and no value.
\<close>

definition intHandler ::
  "'w env \<Rightarrow> Interest \<Rightarrow> Wire \<Rightarrow> Wire \<Rightarrow> ReplyFunc \<Rightarrow> Time \<Rightarrow> 'w Tree \<Rightarrow> unit outcome \<times> 'w Tree" where
  "intHandler env interest rawInterest sigCovered reply deadline t =
     (let matchName = Name interest in
      if length matchName = 0 then (Panic IndexOutOfRange, t)
      else
        (let lastComp = matchName ! (length matchName - 1);
             digest = (Typ lastComp = TypeParametersSha256DigestComponent \<or>
                       Typ lastComp = TypeImplicitSha256DigestComponent);
             extraComp = (if digest then lastComp else \<lparr>Typ = 0, Val = []\<rparr>);
             matchName' = (if digest then take (length matchName - 1) matchName else matchName)
         in case Root t of
              None \<Rightarrow> (Panic NilDereference, t)
            | Some root \<Rightarrow>
                (let ((node, matching), s1) = node_Match env root matchName' (objs t);
                     t1 = record_call t s1 [Match_call root matchName']
                 in case node of
                      None \<Rightarrow> (Return (), t1)
                    | Some n \<Rightarrow>
                        (case add_digest (TypeInvalidComponent env) extraComp matching of
                           Panic p \<Rightarrow> (Panic p, t1)
                         | Return matching' \<Rightarrow>
                             (let s2 = OnInterest env n interest rawInterest sigCovered
                                         reply deadline matching' s1
                              in (Return (),
                                  record_call t1 s2
                                    [OnInterest_call n interest rawInterest sigCovered
                                       reply deadline matching']))))))"

subsection \<open>PutNode\<close>

text \<open>
  \<^verbatim>\<open>func (t *Tree) PutNode(path enc.NamePattern, node NTNode) error\<close>. The argument
  \<open>node\<close> is an interface value, so it may be \<^verbatim>\<open>nil\<close>.
\<close>

definition PutNode ::
  "'w env \<Rightarrow> NamePattern \<Rightarrow> node_ref option \<Rightarrow> 'w Tree \<Rightarrow> error option outcome \<times> 'w Tree" where
  "PutNode env path node t =
     (if length path = 0 then
        (case Root t of
           None \<Rightarrow> (Return None, t\<lparr>Root := node\<rparr>)
         | Some r \<Rightarrow> (Return (Some (errorString ''schema node already exists'')), t))
      else
        (let t1 = (case Root t of
                     None \<Rightarrow>
                       (let (b, s1) = BaseNode_new env (objs t);
                            s2 = Init env b s1
                        in (record_call t s2 [BaseNode_new_call b, Init_call b])\<lparr>Root := Some b\<rparr>)
                   | Some r \<Rightarrow> t)
         in case Root t1 of
              None \<Rightarrow> (Panic NilDereference, t1)
            | Some root \<Rightarrow>
                (let (err, s3) = node_PutNode env root path node (objs t1)
                 in (Return err, record_call t1 s3 [PutNode_call root path node]))))"

subsection \<open>Runs of a tree\<close>

text \<open>
  Modelled from the spec: when the engine, which is in other files, invokes the
  handler. It keeps the handlers registered by \<open>AttachHandler\<close> and on an incoming
  Interest invokes "the longest-matching prefix handler"; so it invokes
  \<^verbatim>\<open>Tree.intHandler\<close> only once a call of \<^verbatim>\<open>AttachHandler\<close> in \<^verbatim>\<open>Attach\<close> has
  registered it, and \<^verbatim>\<open>Attach\<close> sets \<open>Engine\<close> exactly when that call has returned no
  error. A run is a sequence of calls of the methods of a tree, one at a time; an
  Interest that arrives while \<open>Engine\<close> is not set reaches no method of the tree,
  and a panic ends the run.
\<close>

datatype tree_op =
    Do_Attach Name "engine_ref option"
  | Do_Detach
  | Do_PutNode NamePattern "node_ref option"
  | Do_Match Name
  | Interest_arrives Interest Wire Wire ReplyFunc Time

definition returned :: "'a outcome \<Rightarrow> bool" where
  "returned x = (case x of Return v \<Rightarrow> True | Panic p \<Rightarrow> False)"

fun step :: "'w env \<Rightarrow> tree_op \<Rightarrow> 'w Tree \<Rightarrow> bool \<times> 'w Tree" where
  "step env (Do_Attach pfx engine) t = (let (x, t') = Attach env pfx engine t in (returned x, t'))"
| "step env Do_Detach t = (let (x, t') = Detach env t in (returned x, t'))"
| "step env (Do_PutNode path node) t = (let (x, t') = PutNode env path node t in (returned x, t'))"
| "step env (Do_Match name) t = (let (x, t') = Match env name t in (returned x, t'))"
| "step env (Interest_arrives interest rawInterest sigCovered reply deadline) t =
     (if Engine t = None then (True, t)
      else (let (x, t') = intHandler env interest rawInterest sigCovered reply deadline t
            in (returned x, t')))"






subsection \<open>Matching in the tree of nodes\<close>

text \<open>
  Modelled from the spec: the method \<^verbatim>\<open>Match\<close> of a node, to which \<^verbatim>\<open>Tree.Match\<close>
  hands the name; the node types are in other files. The spec has each node hold
  its child edges, keyed by a NamePattern component, and \<^verbatim>\<open>Match\<close> walk "the
  root-to-leaf edges consuming name components; at each edge it tries literal
  children first, then variable-slot children in insertion order"; on a variable
  slot "the component's value Buffer is bound to the slot name (the tag)"; the
  result is "(node, matching) or (nil, _)". A node is its list of child edges in
  insertion order; the nodes are held by reference, the node at reference \<open>r\<close>
  being \<open>ns ! r\<close>. Where no node matches, the Matching returned is the nil map.
\<close>

record BaseNode =
  Chd :: "(ComponentPattern \<times> node_ref) list"

fun is_Literal :: "ComponentPattern \<Rightarrow> bool" where
  "is_Literal (Literal c) = True"
| "is_Literal (Slot tag ty) = False"

fun edge_accepts :: "ComponentPattern \<Rightarrow> Component \<Rightarrow> bool" where
  "edge_accepts (Literal c') c = (c' = c)"
| "edge_accepts (Slot tag ty) c = (case ty of None \<Rightarrow> True | Some n \<Rightarrow> Typ c = n)"

definition select_edge ::
  "(ComponentPattern \<times> node_ref) list \<Rightarrow> Component \<Rightarrow> (ComponentPattern \<times> node_ref) option" where
  "select_edge chd c =
     (case find (\<lambda>e. is_Literal (fst e) \<and> edge_accepts (fst e) c) chd of
        Some e \<Rightarrow> Some e
      | None \<Rightarrow> find (\<lambda>e. \<not> is_Literal (fst e) \<and> edge_accepts (fst e) c) chd)"

fun bind_slot :: "ComponentPattern \<Rightarrow> Component \<Rightarrow> Matching \<Rightarrow> Matching" where
  "bind_slot (Literal c') c m = m"
| "bind_slot (Slot tag ty) c m = m(tag \<mapsto> Val c)"

fun walk :: "BaseNode list \<Rightarrow> node_ref \<Rightarrow> Name \<Rightarrow> Matching \<Rightarrow> (node_ref \<times> Matching) option" where
  "walk ns r [] m = Some (r, m)"
| "walk ns r (c # cs) m =
     (if r < length ns then
        (case select_edge (Chd (ns ! r)) c of
           None \<Rightarrow> None
         | Some e \<Rightarrow> walk ns (snd e) cs (bind_slot (fst e) c m))
      else None)"

text \<open>
  Modelled from the spec: the same rule as a relation, in the spec's words.
  \<open>edge_chosen chd c e\<close>: among the child edges \<open>chd\<close> of a node, in insertion
  order, \<open>e\<close> is the edge to follow on the component \<open>c\<close>. The literal children are
  tried first, so a literal edge for \<open>c\<close> is chosen when there is one (the first,
  should \<open>c\<close> be there twice); a variable slot is chosen only when no literal
  edge is for \<open>c\<close>, and then it is the first slot in insertion order that
  accepts \<open>c\<close>. \<open>matches ns r name m res\<close>: walking from the node \<open>r\<close> with the
  matching \<open>m\<close>, the name is consumed component by component along chosen edges,
  each slot binding the value of its component to its tag, and the walk ends at
  the node and matching \<open>res\<close>.
\<close>

inductive edge_chosen ::
  "(ComponentPattern \<times> node_ref) list \<Rightarrow> Component \<Rightarrow> (ComponentPattern \<times> node_ref) \<Rightarrow> bool"
  for chd c where
    literal_first:
      "i < length chd \<Longrightarrow> chd ! i = (Literal c, r) \<Longrightarrow>
       \<forall>j<i. \<forall>r'. chd ! j \<noteq> (Literal c, r') \<Longrightarrow>
       edge_chosen chd c (Literal c, r)"
  | slot_in_order:
      "i < length chd \<Longrightarrow> chd ! i = (Slot tag ty, r) \<Longrightarrow> edge_accepts (Slot tag ty) c \<Longrightarrow>
       \<forall>j<length chd. \<forall>r'. chd ! j \<noteq> (Literal c, r') \<Longrightarrow>
       \<forall>j<i. \<forall>tag' ty' r'. chd ! j = (Slot tag' ty', r') \<longrightarrow> \<not> edge_accepts (Slot tag' ty') c \<Longrightarrow>
       edge_chosen chd c (Slot tag ty, r)"

inductive matches ::
  "BaseNode list \<Rightarrow> node_ref \<Rightarrow> Name \<Rightarrow> Matching \<Rightarrow> node_ref \<times> Matching \<Rightarrow> bool"
  for ns where
    matches_end: "matches ns r [] m (r, m)"
  | matches_literal:
      "r < length ns \<Longrightarrow> edge_chosen (Chd (ns ! r)) c (Literal c', r') \<Longrightarrow>
       matches ns r' cs m res \<Longrightarrow> matches ns r (c # cs) m res"
  | matches_slot:
      "r < length ns \<Longrightarrow> edge_chosen (Chd (ns ! r)) c (Slot tag ty, r') \<Longrightarrow>
       matches ns r' cs (m(tag \<mapsto> Val c)) res \<Longrightarrow> matches ns r (c # cs) m res"

text \<open>
  The state of the objects in the examples: the nodes, the prefix bound to the
  root, and the prefixes that have a handler on the engine.
\<close>

record schema_objs =
  nodes :: "BaseNode list"
  bound :: "Name option"
  handlers :: "Name list"

definition BaseNode_Match ::
  "node_ref \<Rightarrow> Name \<Rightarrow> schema_objs \<Rightarrow> (node_ref option \<times> Matching option) \<times> schema_objs" where
  "BaseNode_Match r name s =
     (case walk (nodes s) r name Map.empty of
        None \<Rightarrow> ((None, None), s)
      | Some (n, m) \<Rightarrow> ((Some n, Some m), s))"




section \<open>Example inputs\<close>

text \<open>
  Concrete inputs at which the theorems below are instantiated: a platform with
  an \<^verbatim>\<open>int\<close> of 32 bits and one with 64 bits; a Buffer of 65536 bytes and the Wire
  that names it 65536 times, whose lengths sum to \<open>2 ^ 32\<close>; and the same Wire as
  slice headers over a store that holds the one array.
\<close>

definition platform32 :: platform where
  "platform32 = \<lparr>int_bits = 32, max_alloc = 2147483647\<rparr>"

definition platform64 :: platform where
  "platform64 = \<lparr>int_bits = 64, max_alloc = 281474976710656\<rparr>"

definition big_buffer :: Buffer where
  "big_buffer = replicate 65536 0"

definition big_wire :: Wire where
  "big_wire = replicate 65536 big_buffer"

definition big_slices :: "slice list" where
  "big_slices = replicate 65536 \<lparr>arr = Some 0, off = 0, len = 65536\<rparr>"

text \<open>
  A store that holds two arrays, and three slices of which the first and the
  third share the first array; a reader over a Wire of four Buffers.
\<close>

definition example_heap :: heap where
  "example_heap = [[1, 2, 3, 4], [5, 6]]"

definition example_slices :: "slice list" where
  "example_slices =
     [\<lparr>arr = Some 0, off = 1, len = 2\<rparr>,
      \<lparr>arr = Some 1, off = 0, len = 2\<rparr>,
      \<lparr>arr = Some 0, off = 0, len = 3\<rparr>]"


text \<open>
  An environment to instantiate the theorems about \<^verbatim>\<open>Tree\<close> at. Its \<open>node_Match\<close>
  is the matching modelled above; the other methods are stand-ins that do the
  least a node or an engine may do: the root keeps the prefix it is given, the
  engine keeps the prefixes with a handler and refuses one it already has, and a
  new node has no child.
\<close>

definition example_env :: "schema_objs env" where
  "example_env =
     \<lparr>SetAttachedPrefix = (\<lambda>r p s. (None, s\<lparr>bound := Some p\<rparr>)),
      OnAttach = (\<lambda>r path e s. (None, s)),
      AttachHandler = (\<lambda>e p s.
        if p \<in> set (handlers s) then (Some (errorString ''duplicate prefix''), s)
        else (None, s\<lparr>handlers := p # handlers s\<rparr>)),
      AttachedPrefix = (\<lambda>r s. case bound s of None \<Rightarrow> [] | Some p \<Rightarrow> p),
      DetachHandler = (\<lambda>e p s.
        if p \<in> set (handlers s) then (None, s\<lparr>handlers := removeAll p (handlers s)\<rparr>)
        else (Some (ErrNotFound ''prefix''), s)),
      OnDetach = (\<lambda>r s. s),
      node_Match = BaseNode_Match,
      OnInterest = (\<lambda>n i raw sig reply deadline m s. s),
      BaseNode_new = (\<lambda>s. (length (nodes s), s\<lparr>nodes := nodes s @ [\<lparr>Chd = []\<rparr>]\<rparr>)),
      Init = (\<lambda>r s. s),
      node_PutNode = (\<lambda>r path n s. (None, s)),
      TypeInvalidComponent = 0\<rparr>"

text \<open>
  The components \<open>app\<close>, \<open>a\<close> and \<open>b\<close> (generic, type 8), a digest component of
  type 2, and a tree whose root (node 0) has three child edges, inserted in this
  order: a variable slot \<open>x\<close> of any type to node 2, the literal \<open>a\<close> to node 1,
  and a variable slot \<open>y\<close> of type 8 to node 3.
\<close>

definition comp_app :: Component where
  "comp_app = \<lparr>Typ = 8, Val = [97, 112, 112]\<rparr>"

definition comp_a :: Component where
  "comp_a = \<lparr>Typ = 8, Val = [97]\<rparr>"

definition comp_b :: Component where
  "comp_b = \<lparr>Typ = 8, Val = [98]\<rparr>"

definition comp_digest :: Component where
  "comp_digest = \<lparr>Typ = 2, Val = [222, 173]\<rparr>"

definition example_edges :: "(ComponentPattern \<times> node_ref) list" where
  "example_edges = [(Slot ''x'' None, 2), (Literal comp_a, 1), (Slot ''y'' (Some 8), 3)]"

definition example_objs :: schema_objs where
  "example_objs =
     \<lparr>nodes = [\<lparr>Chd = example_edges\<rparr>, \<lparr>Chd = []\<rparr>, \<lparr>Chd = []\<rparr>, \<lparr>Chd = []\<rparr>],
      bound = None, handlers = []\<rparr>"

definition example_tree :: "schema_objs Tree" where
  "example_tree = \<lparr>Root = Some 0, Engine = None, objs = example_objs, calls = []\<rparr>"

definition empty_tree :: "schema_objs Tree" where
  "empty_tree =
     \<lparr>Root = None, Engine = None, objs = \<lparr>nodes = [], bound = None, handlers = []\<rparr>, calls = []\<rparr>"

text \<open>The example tree after \<open>Attach\<close> at the prefix \<open>/app\<close> on engine 7.\<close>

definition attached_tree :: "schema_objs Tree" where
  "attached_tree =
     example_tree\<lparr>objs := example_objs\<lparr>bound := Some [comp_app], handlers := [[comp_app]]\<rparr>,
                  calls := [SetAttachedPrefix_call 0 [comp_app],
                            OnAttach_call 0 [Literal comp_app] (Some 7),
                            AttachHandler_call 7 [comp_app]],
                  Engine := Some 7\<rparr>"









section \<open>Properties of the encoding package\<close>

subsection \<open>Arithmetic of int\<close>

lemma int_wrap_id:
  assumes "0 < bits" and "- (2 ^ (bits - 1)) \<le> x" and "x < 2 ^ (bits - 1)"
  shows "int_wrap bits x = x"
proof -
  have two: "(2::int) ^ bits = 2 * 2 ^ (bits - 1)"
    using assms(1) by (cases bits) auto
  have "0 \<le> x + 2 ^ (bits - 1)" and "x + 2 ^ (bits - 1) < 2 ^ bits"
    using assms two by auto
  then have "(x + 2 ^ (bits - 1)) mod 2 ^ bits = x + 2 ^ (bits - 1)"
    by simp
  then show ?thesis
    by (simp add: int_wrap_def)
qed

lemma int_wrap_range:
  assumes "0 < bits"
  shows "- (2 ^ (bits - 1)) \<le> int_wrap bits x \<and> int_wrap bits x < 2 ^ (bits - 1)"
proof -
  have two: "(2::int) ^ bits = 2 * 2 ^ (bits - 1)"
    using assms(1) by (cases bits) auto
  have "0 \<le> (x + 2 ^ (bits - 1)) mod 2 ^ bits" and "(x + 2 ^ (bits - 1)) mod 2 ^ bits < 2 ^ bits"
    by simp_all
  then show ?thesis
    using two by (simp add: int_wrap_def)
qed

lemma int_wrap_add_left: "int_wrap bits (int_wrap bits x + y) = int_wrap bits (x + y)"
proof -
  have "(int_wrap bits x + y + 2 ^ (bits - 1)) mod 2 ^ bits =
        ((x + 2 ^ (bits - 1)) mod 2 ^ bits + y) mod 2 ^ bits"
    by (simp add: int_wrap_def)
  also have "\<dots> = ((x + 2 ^ (bits - 1)) + y) mod 2 ^ bits"
    by (rule mod_add_left_eq)
  also have "(x + 2 ^ (bits - 1)) + y = x + y + 2 ^ (bits - 1)"
    by simp
  finally show ?thesis
    by (simp add: int_wrap_def)
qed

lemma int_wrap_le:
  assumes "0 \<le> x" and "0 \<le> int_wrap bits x"
  shows "int_wrap bits x \<le> x"
proof -
  have "(x + 2 ^ (bits - 1)) mod 2 ^ bits \<le> x + 2 ^ (bits - 1)"
    using assms(1) by (intro zmod_le_nonneg_dividend) simp
  then show ?thesis
    by (simp add: int_wrap_def)
qed

lemma fold_int_add:
  "fold (\<lambda>v n. int_add p n (int (length v))) w (int_wrap (int_bits p) k) =
   int_wrap (int_bits p) (k + int (length (concat w)))"
proof (induction w arbitrary: k)
  case Nil
  then show ?case by simp
next
  case (Cons v w)
  have "int_add p (int_wrap (int_bits p) k) (int (length v)) =
        int_wrap (int_bits p) (k + int (length v))"
    by (simp add: int_add_def int_wrap_add_left)
  then show ?case
    using Cons.IH [of "k + int (length v)"] by (simp add: add.assoc)
qed

lemma fold_int_add_0:
  assumes "0 < int_bits p"
  shows "fold (\<lambda>v n. int_add p n (int (length v))) w 0 =
         int_wrap (int_bits p) (int (length (concat w)))"
proof -
  have "int_wrap (int_bits p) 0 = 0"
    using assms by (intro int_wrap_id) auto
  then show ?thesis
    using fold_int_add [of p w 0] by simp
qed

subsection \<open>Join\<close>

lemma copy_at_append:
  "copy_at (q @ r) (int (length q)) v =
   Some (min (length r) (length v), q @ take (length r) v @ drop (length v) r)"
  by (auto simp: copy_at_def copy_bytes_def Let_def min_def)

lemma join_loop_fill:
  assumes "0 < int_bits p" and "int (length q + length r) < 2 ^ (int_bits p - 1)"
  shows "join_loop p (q @ r) (int (length q)) vs =
         Some (q @ take (length r) (concat vs) @ drop (length (concat vs)) r)"
  using assms(2)
proof (induction vs arbitrary: q r)
  case Nil
  then show ?case by simp
next
  case (Cons v vs)
  let ?k = "min (length r) (length v)"
  let ?q = "q @ take (length r) v"
  let ?r = "drop (length v) r"
  have lq: "length ?q = length q + ?k"
    by (simp add: min.commute)
  have step: "copy_at (q @ r) (int (length q)) v = Some (?k, ?q @ ?r)"
    by (simp add: copy_at_append)
  have "int (length q) + int ?k < 2 ^ (int_bits p - 1)"
    using Cons.prems by auto
  then have bp: "int_add p (int (length q)) (int ?k) = int (length ?q)"
    using assms(1) lq by (simp add: int_add_def int_wrap_id)
  have small: "int (length ?q + length ?r) < 2 ^ (int_bits p - 1)"
    using Cons.prems by auto
  have "join_loop p (?q @ ?r) (int (length ?q)) vs =
        Some (?q @ take (length ?r) (concat vs) @ drop (length (concat vs)) ?r)"
    using small by (rule Cons.IH)
  then show ?case
    using step bp by (simp add: add.commute)
qed

lemma Join_char:
  assumes "0 < int_bits p"
  shows "Join p w =
     (if length w \<le> 1 then Some (concat w)
      else (let n = int_wrap (int_bits p) (int (length (concat w)))
            in if n < 0 \<or> int (max_alloc p) < n then None
               else Some (take (nat n) (concat w))))"
proof (cases "length w \<le> 1")
  case True
  then show ?thesis
    by (cases w) (auto simp: Join_def)
next
  case False
  then obtain v vs where w: "w = v # vs"
    by (cases w) auto
  let ?n = "int_wrap (int_bits p) (int (length (concat w)))"
  have n: "fold (\<lambda>v n. int_add p n (int (length v))) w 0 = ?n"
    using assms by (rule fold_int_add_0)
  show ?thesis
  proof (cases "?n < 0 \<or> int (max_alloc p) < ?n")
    case True
    then show ?thesis
      using False n w by (simp add: Join_def make_buffer_def Let_def)
  next
    case ok: False
    define m where "m = nat ?n"
    have m: "int m = ?n" using ok by (simp add: m_def)
    have le: "m \<le> length (concat w)"
      using int_wrap_le [of "int (length (concat w))" "int_bits p"] ok by (simp add: m_def)
    have small: "int m < 2 ^ (int_bits p - 1)"
      using int_wrap_range [OF assms, of "int (length (concat w))"] m by simp
    have mk: "make_buffer p ?n = Some (replicate m 0)"
      using ok by (simp add: make_buffer_def m_def)
    have first: "copy_bytes (replicate m 0) v =
        (min m (length v), take m v @ replicate (m - length v) 0)"
      by (simp add: copy_bytes_def Let_def min_def)
    have len1: "length (take m v) = min m (length v)"
      by (simp add: min.commute)
    have total: "length (take m v) + length (replicate (m - length v) (0::byte)) = m"
      by simp
    have "join_loop p (take m v @ replicate (m - length v) 0) (int (length (take m v))) vs =
        Some (take m v @ take (length (replicate (m - length v) (0::byte))) (concat vs) @
              drop (length (concat vs)) (replicate (m - length v) 0))"
    proof (rule join_loop_fill [OF assms])
      show "int (length (take m v) + length (replicate (m - length v) (0::byte))) <
            2 ^ (int_bits p - 1)"
        using small by (simp only: total)
    qed
    moreover have "drop (length (concat vs)) (replicate (m - length v) (0::byte)) = []"
      using le w by simp
    ultimately have "join_loop p (take m v @ replicate (m - length v) 0) (int (min m (length v))) vs =
        Some (take m (concat w))"
      using w len1 by simp
    then show ?thesis
      using False w n mk first ok m by (simp add: Join_def Let_def m_def)
  qed
qed

lemma stream_byte_concat: "i < length (concat w) \<Longrightarrow> stream_byte w i = Some (concat w ! i)"
  by (induction w arbitrary: i) (auto simp: nth_append)

lemma Join_concat_iff:
  assumes "0 < int_bits p"
  shows "(Join p w = Some (concat w)) =
         (length w \<le> 1 \<or>
          (int (length (concat w)) < 2 ^ (int_bits p - 1) \<and> length (concat w) \<le> max_alloc p))"
proof (cases "length w \<le> 1")
  case True
  then show ?thesis
    by (simp add: Join_char [OF assms])
next
  case False
  let ?t = "int (length (concat w))"
  let ?n = "int_wrap (int_bits p) ?t"
  show ?thesis
  proof (cases "?t < 2 ^ (int_bits p - 1)")
    case True
    have neg: "- (2 ^ (int_bits p - 1)) \<le> ?t"
      by (rule order_trans [of _ 0]) simp_all
    have "?n = ?t"
      using assms neg True by (rule int_wrap_id)
    then show ?thesis
      using False True by (auto simp: Join_char [OF assms] Let_def)
  next
    case big: False
    have "?n < 2 ^ (int_bits p - 1)"
      using int_wrap_range [OF assms, of ?t] by blast
    moreover have "2 ^ (int_bits p - 1) \<le> ?t"
      using big by linarith
    ultimately have "?n < ?t"
      by linarith
    then have "Join p w \<noteq> Some (concat w)"
      using False
      by (auto simp: Join_char [OF assms] Let_def dest!: arg_cong [where f = length])
    then show ?thesis
      using False big by simp
  qed
qed

text \<open>
  C3. For every Wire \<open>w\<close> that has at most one Buffer, or whose Buffers' lengths
  sum to a number that fits \<^verbatim>\<open>int\<close> (is below \<open>2 ^ (int_bits - 1)\<close>) and can be
  allocated, \<open>Join\<close> returns (without panicking) the concatenation of the Buffers
  of \<open>w\<close> in order; the length of the result is the sum of the lengths of the
  Buffers, and the byte at every global offset \<open>i\<close> of the result is the byte of
  the logically contiguous stream at that offset. For every other Wire \<open>Join\<close>
  does not return the concatenation.
\<close>

theorem Join_is_concatenation:
  assumes "0 < int_bits p"
  shows "(length w \<le> 1 \<or>
          (int (sum_list (map length w)) < 2 ^ (int_bits p - 1) \<and>
           sum_list (map length w) \<le> max_alloc p) \<longrightarrow>
            (\<exists>b. Join p w = Some b \<and> b = concat w \<and> length b = sum_list (map length w) \<and>
                 (\<forall>i<length b. stream_byte w i = Some (b ! i)))) \<and>
         (\<not> (length w \<le> 1 \<or>
             (int (sum_list (map length w)) < 2 ^ (int_bits p - 1) \<and>
              sum_list (map length w) \<le> max_alloc p)) \<longrightarrow>
            Join p w \<noteq> Some (concat w))"
  using Join_concat_iff [OF assms, of w]
  by (auto simp: length_concat stream_byte_concat)

theorem Join_is_concatenation_witness:
  "Join platform64 [[1, 2], [], [3 :: byte]] = Some [1, 2, 3] \<and>
   stream_byte [[1, 2], [], [3]] 2 = Some 3 \<and>
   Join platform32 big_wire \<noteq> Some (concat big_wire)"
proof -
  have b: "0 < int_bits platform64" and b32: "0 < int_bits platform32"
    by (simp_all add: platform64_def platform32_def)
  have c: "length [[1, 2], [], [3 :: byte]] \<le> 1 \<or>
     (int (sum_list (map length [[1, 2], [], [3 :: byte]])) < 2 ^ (int_bits platform64 - 1) \<and>
      sum_list (map length [[1, 2], [], [3 :: byte]]) \<le> max_alloc platform64)"
    by (simp add: platform64_def)
  have big: "\<not> (length big_wire \<le> 1 \<or>
     (int (sum_list (map length big_wire)) < 2 ^ (int_bits platform32 - 1) \<and>
      sum_list (map length big_wire) \<le> max_alloc platform32))"
    by (simp add: big_wire_def big_buffer_def platform32_def sum_list_replicate)
  show ?thesis
    using c big Join_is_concatenation [OF b, of "[[1, 2], [], [3 :: byte]]"]
      Join_is_concatenation [OF b32, of big_wire]
    by auto
qed

lemma length_concat_replicate: "length (concat (replicate n xs)) = n * length xs"
  by (induction n) auto

lemma length_big_wire: "length (concat big_wire) = 4294967296"
  by (simp add: big_wire_def big_buffer_def length_concat_replicate)

text \<open>
  On a platform with an \<^verbatim>\<open>int\<close> of 32 bits the Wire that names one Buffer of 65536
  bytes 65536 times has lengths that sum to \<open>2 ^ 32\<close>, which wraps to 0: \<open>Join\<close>
  returns the empty Buffer, not the \<open>2 ^ 32\<close> bytes of the concatenation.
\<close>

theorem Join_overflow_counterexample:
  "Join platform32 big_wire = Some [] \<and>
   length big_wire = 65536 \<and>
   length (concat big_wire) = 4294967296"
proof -
  have b: "0 < int_bits platform32" and bits: "int_bits platform32 = 32"
    by (simp_all add: platform32_def)
  have l: "length big_wire = 65536"
    by (simp add: big_wire_def)
  have z: "int_wrap 32 4294967296 = 0"
    by (simp add: int_wrap_def)
  show ?thesis
    using Join_char [OF b, of big_wire] by (simp add: l length_big_wire bits z)
qed

subsection \<open>ErrFailToParse\<close>

lemma digit_val_digit_char: "d < 10 \<Longrightarrow> digit_val (digit_char d) = d"
proof -
  assume "d < 10"
  then have "d \<in> {0, 1, 2, 3, 4, 5, 6, 7, 8, 9}" by auto
  then show ?thesis
    by (auto simp: digit_val_def digit_char_def)
qed

lemma dec_val_snoc: "dec_val (s @ [c]) = 10 * dec_val s + digit_val c"
  by (simp add: dec_val_def)

lemma dec_val_fmt_d: "dec_val (fmt_d n) = n"
proof (induction n rule: fmt_d.induct)
  case (1 n)
  show ?case
  proof (cases "n < 10")
    case True
    then show ?thesis
      by (subst fmt_d.simps) (simp add: dec_val_def digit_val_digit_char)
  next
    case False
    then have "dec_val (fmt_d (n div 10)) = n div 10"
      using 1 by simp
    then show ?thesis
      using False by (subst fmt_d.simps) (simp add: dec_val_snoc digit_val_digit_char)
  qed
qed

text \<open>
  C7. For every type number \<open>t\<close> and underlying error \<open>e\<close>, \<open>Unwrap\<close> of
  \<open>ErrFailToParse{TypeNum: t, Err: e}\<close> returns exactly \<open>e\<close>, and its \<open>Error()\<close> string
  is "Failed to parse field ", the decimal digits of \<open>t\<close>, ": " and the message of
  \<open>e\<close>: it contains the type number (as digits that read back as \<open>t\<close>) and the
  message of \<open>e\<close>.
\<close>

theorem ErrFailToParse_identifies_field:
  "Unwrap (ErrFailToParse t (Some e)) = Some e \<and>
   Error (ErrFailToParse t (Some e)) = ''Failed to parse field '' @ fmt_d t @ '': '' @ Error e \<and>
   sublist (fmt_d t) (Error (ErrFailToParse t (Some e))) \<and>
   sublist (Error e) (Error (ErrFailToParse t (Some e))) \<and>
   dec_val (fmt_d t) = t"
proof -
  have a: "sublist (fmt_d t) (''Failed to parse field '' @ fmt_d t @ ('': '' @ Error e))"
    by (rule sublist_appendI)
  have b: "sublist (Error e) ((''Failed to parse field '' @ fmt_d t @ '': '') @ Error e @ [])"
    by (rule sublist_appendI)
  show ?thesis
    using a b by (simp add: dec_val_fmt_d)
qed

theorem ErrFailToParse_identifies_field_witness:
  "Unwrap (ErrFailToParse 1000 (Some ErrBufferOverflow)) = Some ErrBufferOverflow \<and>
   Error (ErrFailToParse 1000 (Some ErrBufferOverflow)) =
     ''Failed to parse field 1000: Buffer overflow when parsing. One of the TLV Length is wrong'' \<and>
   sublist ''1000'' (Error (ErrFailToParse 1000 (Some ErrBufferOverflow)))"
  using ErrFailToParse_identifies_field [of 1000 ErrBufferOverflow]
  by (simp add: fmt_d.simps digit_char_def ErrBufferOverflow_def)

subsection \<open>Join on the store\<close>

lemma length_bytes_of: "valid_slice h v \<Longrightarrow> length (bytes_of h v) = len v"
  by (auto simp: valid_slice_def bytes_of_def split: option.splits)

lemma bytes_of_extend: "valid_slice h v \<Longrightarrow> bytes_of (h @ [x]) v = bytes_of h v"
  by (auto simp: valid_slice_def bytes_of_def nth_append split: option.splits)

lemma fold_add_len:
  "\<forall>v\<in>set w. valid_slice h v \<Longrightarrow>
   fold (\<lambda>v n. int_add p n (int (len v))) w k =
   fold (\<lambda>v n. int_add p n (int (length v))) (map (bytes_of h) w) k"
  by (induction w arbitrary: k) (auto simp: length_bytes_of)

lemma copy_at_length: "copy_at b bp v = Some (k, b') \<Longrightarrow> length b' = length b"
  by (auto simp: copy_at_def copy_bytes_def Let_def min_def split: if_splits)

lemma copy_at_in_range: "copy_at b bp v = Some (k, b') \<Longrightarrow> 0 \<le> bp \<and> bp \<le> int (length b)"
  by (auto simp: copy_at_def split: if_splits)

lemma copy_slices_fresh:
  assumes "valid_slice h v" and "bp \<le> length barr"
  shows "\<exists>k barr'. copy_at barr (int bp) (bytes_of h v) = Some (k, barr') \<and>
           copy_slices (h @ [barr]) \<lparr>arr = Some (length h), off = bp, len = length barr - bp\<rparr> v =
             (k, h @ [barr'])"
  using assms
  by (simp add: copy_slices_def copy_at_def copy_bytes_def Let_def bytes_of_extend
      length_bytes_of min_def add.commute)

lemma join_loop_heap_fresh:
  assumes "\<forall>v\<in>set vs. valid_slice h v"
    and "join_loop p barr bp (map (bytes_of h) vs) = Some out"
  shows "join_loop_heap p (h @ [barr]) \<lparr>arr = Some (length h), off = 0, len = length barr\<rparr> bp vs =
         Some (\<lparr>arr = Some (length h), off = 0, len = length barr\<rparr>, h @ [out])"
  using assms
proof (induction vs arbitrary: barr bp)
  case Nil
  then show ?case by simp
next
  case (Cons v vs)
  from Cons.prems(2) obtain k barr' where
    c: "copy_at barr bp (bytes_of h v) = Some (k, barr')" and
    r: "join_loop p barr' (int_add p bp (int k)) (map (bytes_of h) vs) = Some out"
    by (auto split: option.splits)
  have bp: "0 \<le> bp" "bp \<le> int (length barr)"
    using copy_at_in_range [OF c] by auto
  have len: "length barr' = length barr"
    using c by (rule copy_at_length)
  have v: "valid_slice h v"
    using Cons.prems(1) by simp
  have nbp: "nat bp \<le> length barr" "int (nat bp) = bp"
    using bp by auto
  have cs: "copy_slices (h @ [barr])
              \<lparr>arr = Some (length h), off = nat bp, len = length barr - nat bp\<rparr> v =
            (k, h @ [barr'])"
    using copy_slices_fresh [OF v nbp(1)] c nbp(2) by auto
  have ih: "join_loop_heap p (h @ [barr']) \<lparr>arr = Some (length h), off = 0, len = length barr'\<rparr>
              (int_add p bp (int k)) vs =
         Some (\<lparr>arr = Some (length h), off = 0, len = length barr'\<rparr>, h @ [out])"
    using Cons.prems(1) r by (intro Cons.IH) auto
  show ?case
    using bp cs ih len by (simp add: reslice_from_def)
qed

lemma join_loop_heap_empty:
  assumes "0 < int_bits p"
  shows "join_loop_heap p h empty_slice 0 vs = Some (empty_slice, h)"
proof -
  have z: "int_add p 0 0 = 0"
    using assms by (simp add: int_add_def int_wrap_id)
  show ?thesis
    by (induction vs) (simp_all add: reslice_from_def empty_slice_def copy_slices_def z)
qed

lemma Join_heap_refines:
  assumes "0 < int_bits p" and "2 \<le> length w" and "\<forall>v\<in>set w. valid_slice h v"
  shows "Join_heap p h w =
     (case Join p (map (bytes_of h) w) of
        None \<Rightarrow> None
      | Some out \<Rightarrow>
          if out = [] then Some (empty_slice, h)
          else Some (\<lparr>arr = Some (length h), off = 0, len = length out\<rparr>, h @ [out]))"
proof -
  let ?bs = "map (bytes_of h) w"
  let ?n = "int_wrap (int_bits p) (int (length (concat ?bs)))"
  obtain v vs where w: "w = v # vs"
    using assms(2) by (cases w) auto
  have lw: "length w \<noteq> 0" "length w \<noteq> 1" "w ! 0 = v" "drop 1 w = vs"
    "\<not> length w \<le> 1"
    using assms(2) w by auto
  have v: "valid_slice h v" and vsv: "\<forall>u\<in>set vs. valid_slice h u"
    using assms(3) w by auto
  have n: "fold (\<lambda>v n. int_add p n (int (len v))) w 0 = ?n"
    using assms(3) by (simp add: fold_add_len fold_int_add_0 [OF assms(1)])
  have nb: "fold (\<lambda>v n. int_add p n (int (length v))) ?bs 0 = ?n"
    by (rule fold_int_add_0 [OF assms(1)])
  have Jc: "Join p ?bs =
      (if ?n < 0 \<or> int (max_alloc p) < ?n then None
       else Some (take (nat ?n) (concat ?bs)))"
    using lw(5) by (simp add: Join_char [OF assms(1)] Let_def)
  consider (fail) "?n < 0 \<or> int (max_alloc p) < ?n" | (zero) "?n = 0"
    | (pos) "0 < ?n" "?n \<le> int (max_alloc p)"
    by linarith
  then show ?thesis
  proof cases
    case fail
    then have "make_bytes p h ?n = None"
      by (simp add: make_bytes_def)
    then have "Join_heap p h w = None"
      using lw n by (simp add: Join_heap_def)
    then show ?thesis
      using Jc fail by simp
  next
    case zero
    then have "make_bytes p h ?n = Some (empty_slice, h)"
      by (simp add: make_bytes_def)
    moreover have "copy_slices h empty_slice v = (0, h)"
      by (simp add: copy_slices_def empty_slice_def)
    ultimately have "Join_heap p h w = Some (empty_slice, h)"
      using lw n join_loop_heap_empty [OF assms(1)] by (simp add: Join_heap_def)
    then show ?thesis
      using Jc zero by simp
  next
    case pos
    define m where "m = nat ?n"
    have m: "0 < m" "int m = ?n"
      using pos by (simp_all add: m_def)
    have le: "m \<le> length (concat ?bs)"
      using int_wrap_le [of "int (length (concat ?bs))" "int_bits p"] pos by (simp add: m_def)
    define out where "out = take m (concat ?bs)"
    have lout: "length out = m"
      using le by (simp add: out_def)
    then have out: "length out = m" "out \<noteq> []"
      using m(1) by auto
    have Jout: "Join p ?bs = Some out"
      using Jc pos by (simp add: out_def m_def)
    have mk: "make_buffer p ?n = Some (replicate m 0)"
      using pos by (simp add: make_buffer_def m_def)
    have mkh: "make_bytes p h ?n =
        Some (\<lparr>arr = Some (length h), off = 0, len = m\<rparr>, h @ [replicate m 0])"
      using pos by (simp add: make_bytes_def m_def)
    obtain bp b1 where cb: "copy_bytes (replicate m 0) (bytes_of h v) = (bp, b1)"
      by (cases "copy_bytes (replicate m 0) (bytes_of h v)") auto
    have b1: "length b1 = m"
      using cb by (auto simp: copy_bytes_def Let_def min_def)
    have lbs: "length ?bs \<noteq> 0" "length ?bs \<noteq> 1" "?bs ! 0 = bytes_of h v"
      "drop 1 ?bs = map (bytes_of h) vs"
      using assms(2) w by auto
    have "Join p ?bs = join_loop p b1 (int bp) (map (bytes_of h) vs)"
      using lbs nb mk cb by (simp add: Join_def del: length_map)
    then have jl: "join_loop p b1 (int bp) (map (bytes_of h) vs) = Some out"
      using Jout by simp
    have c0: "copy_at (replicate m 0) (int 0) (bytes_of h v) = Some (bp, b1)"
      using cb by (simp add: copy_at_def)
    have first: "copy_slices (h @ [replicate m 0]) \<lparr>arr = Some (length h), off = 0, len = m\<rparr> v =
        (bp, h @ [b1])"
      using copy_slices_fresh [OF v, of 0 "replicate m 0"] c0 by simp
    have "join_loop_heap p (h @ [b1]) \<lparr>arr = Some (length h), off = 0, len = length b1\<rparr>
            (int bp) vs =
          Some (\<lparr>arr = Some (length h), off = 0, len = length b1\<rparr>, h @ [out])"
      using vsv jl by (rule join_loop_heap_fresh)
    then have "Join_heap p h w = Some (\<lparr>arr = Some (length h), off = 0, len = m\<rparr>, h @ [out])"
      using lw n mkh first b1 by (simp add: Join_heap_def)
    then show ?thesis
      using Jout out by simp
  qed
qed

lemma Join_heap_small:
  "Join_heap p h [] = Some (empty_slice, h) \<and> bytes_of h empty_slice = [] \<and>
   Join_heap p h [v] = Some (v, h)"
  by (simp add: Join_heap_def bytes_of_def empty_slice_def)

lemma Join_heap_fits:
  assumes "0 < int_bits p" and "2 \<le> length w" and "\<forall>u\<in>set w. valid_slice h u"
    and "0 < length (concat (map (bytes_of h) w))"
    and "int (length (concat (map (bytes_of h) w))) < 2 ^ (int_bits p - 1)"
    and "length (concat (map (bytes_of h) w)) \<le> max_alloc p"
  shows "Join_heap p h w =
     Some (\<lparr>arr = Some (length h), off = 0, len = length (concat (map (bytes_of h) w))\<rparr>,
           h @ [concat (map (bytes_of h) w)])"
proof -
  let ?bs = "map (bytes_of h) w"
  have "length ?bs \<le> 1 \<or>
     (int (length (concat ?bs)) < 2 ^ (int_bits p - 1) \<and> length (concat ?bs) \<le> max_alloc p)"
    using assms(5,6) by simp
  then have "Join p ?bs = Some (concat ?bs)"
    using Join_concat_iff [OF assms(1), of ?bs] by simp
  moreover have "concat ?bs \<noteq> []"
    using assms(4) by auto
  ultimately show ?thesis
    using Join_heap_refines [OF assms(1-3)] by simp
qed

lemma Join_heap_zero:
  assumes "0 < int_bits p" and "2 \<le> length w" and "\<forall>u\<in>set w. valid_slice h u"
    and "length (concat (map (bytes_of h) w)) = 0"
  shows "Join_heap p h w = Some (empty_slice, h)"
proof -
  let ?bs = "map (bytes_of h) w"
  have "int_wrap (int_bits p) 0 = 0"
    using assms(1) by (intro int_wrap_id) auto
  then have "Join p ?bs = Some []"
    using assms(2,4) by (simp add: Join_char [OF assms(1)] Let_def del: length_0_conv)
  then show ?thesis
    using Join_heap_refines [OF assms(1-3)] by simp
qed

lemma Join_heap_overflow:
  assumes "0 < int_bits p" and "2 \<le> length w" and "\<forall>u\<in>set w. valid_slice h u"
    and "\<not> (int (length (concat (map (bytes_of h) w))) < 2 ^ (int_bits p - 1) \<and>
            length (concat (map (bytes_of h) w)) \<le> max_alloc p)"
    and "Join_heap p h w = Some (s, h')"
  shows "bytes_of h' s \<noteq> concat (map (bytes_of h) w)"
proof -
  let ?bs = "map (bytes_of h) w"
  have ne: "Join p ?bs \<noteq> Some (concat ?bs)"
    using Join_concat_iff [OF assms(1), of ?bs] assms(2,4) by simp
  have big: "concat ?bs \<noteq> []"
  proof
    assume "concat ?bs = []"
    then have z: "length (concat ?bs) = 0" by simp
    have "int n < 2 ^ k \<and> n \<le> m" if "n = 0" for n k m :: nat
      using that by simp
    from this [OF z] show False using assms(4) by blast
  qed
  obtain out where J: "Join p ?bs = Some out"
    using Join_heap_refines [OF assms(1-3)] assms(5) by (cases "Join p ?bs") auto
  show ?thesis
  proof (cases "out = []")
    case True
    then have "s = empty_slice"
      using Join_heap_refines [OF assms(1-3)] assms(5) J by simp
    then show ?thesis
      using big by (simp add: bytes_of_def empty_slice_def)
  next
    case False
    then have "s = \<lparr>arr = Some (length h), off = 0, len = length out\<rparr>" "h' = h @ [out]"
      using Join_heap_refines [OF assms(1-3)] assms(5) J by simp_all
    then have "bytes_of h' s = out"
      by (simp add: bytes_of_def)
    then show ?thesis
      using ne J by auto
  qed
qed

text \<open>
  C10. On the empty Wire \<open>Join\<close> returns an empty byte string and allocates
  nothing; on a Wire of one Buffer it returns that very slice (same array, offset
  and length) and allocates nothing. On a Wire of two or more (valid) Buffers
  whose lengths sum to a positive number that fits \<^verbatim>\<open>int\<close> and can be allocated,
  it returns a slice of a newly allocated array, which is the array of none of
  the Buffers of the Wire, holding the concatenation, and leaves every array that
  was there as it was; when the lengths sum to zero it returns an empty slice and
  allocates nothing; and when the sum does not fit or cannot be allocated, it
  returns no slice that holds the concatenation.
\<close>

theorem Join_heap_allocation:
  assumes "0 < int_bits p"
  shows "Join_heap p h [] = Some (empty_slice, h) \<and>
   bytes_of h empty_slice = [] \<and>
   Join_heap p h [v] = Some (v, h) \<and>
   (2 \<le> length w \<and> (\<forall>u\<in>set w. valid_slice h u) \<longrightarrow>
      (let out = concat (map (bytes_of h) w);
           s = \<lparr>arr = Some (length h), off = 0, len = length out\<rparr>
       in (0 < length out \<and> int (length out) < 2 ^ (int_bits p - 1) \<and>
             length out \<le> max_alloc p \<longrightarrow>
               Join_heap p h w = Some (s, h @ [out]) \<and>
               (\<forall>u\<in>set w. arr u \<noteq> arr s) \<and>
               bytes_of (h @ [out]) s = out) \<and>
          (length out = 0 \<longrightarrow> Join_heap p h w = Some (empty_slice, h)) \<and>
          (\<not> (int (length out) < 2 ^ (int_bits p - 1) \<and> length out \<le> max_alloc p) \<longrightarrow>
             (\<forall>s' h'. Join_heap p h w = Some (s', h') \<longrightarrow> bytes_of h' s' \<noteq> out))))"
proof -
  have fresh: "\<forall>u\<in>set w. arr u \<noteq> Some (length h)" if "\<forall>u\<in>set w. valid_slice h u"
    using that by (auto simp: valid_slice_def split: option.splits)
  have content: "bytes_of (h @ [out]) \<lparr>arr = Some (length h), off = 0, len = length out\<rparr> = out"
    for out
    by (simp add: bytes_of_def)
  show ?thesis
    using Join_heap_small [of p h v] fresh content
      Join_heap_fits [OF assms, of w h] Join_heap_zero [OF assms, of w h]
      Join_heap_overflow [OF assms, of w h]
    by (simp add: Let_def del: length_0_conv length_greater_0_conv)
qed

theorem Join_heap_allocation_witness:
  "list_all (valid_slice example_heap) example_slices \<and>
   Join_heap platform64 example_heap example_slices =
     Some (\<lparr>arr = Some 2, off = 0, len = 7\<rparr>, example_heap @ [[2, 3, 5, 6, 1, 2, 3]]) \<and>
   Join_heap platform64 example_heap [hd example_slices] =
     Some (\<lparr>arr = Some 0, off = 1, len = 2\<rparr>, example_heap)"
proof -
  have b: "0 < int_bits platform64"
    by (simp add: platform64_def)
  have v: "2 \<le> length example_slices \<and> (\<forall>u\<in>set example_slices. valid_slice example_heap u)"
    by (simp add: example_slices_def example_heap_def valid_slice_def)
  show ?thesis
    using v Join_heap_allocation [OF b, of example_heap "hd example_slices" example_slices]
    by (simp add: example_slices_def example_heap_def bytes_of_def Let_def platform64_def)
qed

lemma length_big_buffer: "length big_buffer = 65536"
  by (simp add: big_buffer_def)

lemma bytes_of_big: "bytes_of [big_buffer] \<lparr>arr = Some 0, off = 0, len = 65536\<rparr> = big_buffer"
  by (simp add: bytes_of_def length_big_buffer)

text \<open>
  Two cases of a Wire of two or more Buffers for which \<open>Join\<close> builds no new
  Buffer: the 65536 slices of one array of 65536 bytes on a platform with an
  \<^verbatim>\<open>int\<close> of 32 bits, where the result is empty and does not hold the \<open>2 ^ 32\<close> bytes
  of the concatenation; and two empty Buffers.
\<close>

theorem Join_heap_counterexample:
  "Join_heap platform32 [big_buffer] big_slices = Some (empty_slice, [big_buffer]) \<and>
   length big_slices = 65536 \<and>
   list_all (valid_slice [big_buffer]) big_slices \<and>
   length (concat (map (bytes_of [big_buffer]) big_slices)) = 4294967296 \<and>
   Join_heap platform32 [] [empty_slice, empty_slice] = Some (empty_slice, [])"
proof -
  have b: "0 < int_bits platform32" and bits: "int_bits platform32 = 32"
    by (simp_all add: platform32_def)
  have l: "length big_slices = 65536" "2 \<le> length big_slices"
    by (simp_all add: big_slices_def)
  have v: "\<forall>u\<in>set big_slices. valid_slice [big_buffer] u"
    by (simp add: big_slices_def valid_slice_def length_big_buffer)
  have m: "map (bytes_of [big_buffer]) big_slices = big_wire"
    by (simp add: big_slices_def big_wire_def bytes_of_big)
  have z: "int_wrap 32 4294967296 = 0"
    by (simp add: int_wrap_def)
  have J: "Join platform32 big_wire = Some []"
    using Join_char [OF b, of big_wire] by (simp add: big_wire_def length_big_wire [unfolded big_wire_def] bits z)
  have one: "Join_heap platform32 [big_buffer] big_slices = Some (empty_slice, [big_buffer])"
    using Join_heap_refines [OF b l(2) v] by (simp add: m J)
  have e: "2 \<le> length [empty_slice, empty_slice]"
    "\<forall>u\<in>set [empty_slice, empty_slice]. valid_slice [] u"
    by (simp_all add: valid_slice_def empty_slice_def)
  have two: "Join_heap platform32 [] [empty_slice, empty_slice] = Some (empty_slice, [])"
    using Join_heap_zero [OF b e] by (simp add: bytes_of_def empty_slice_def)
  show ?thesis
    using one two l(1) v by (simp add: m length_big_wire list_all_iff)
qed

subsection \<open>Range\<close>







section \<open>Properties of the schema tree\<close>

subsection \<open>The examples evaluated\<close>

lemma select_edge_Nil: "select_edge [] c = None"
  by (simp add: select_edge_def)

lemma select_edge_example_b: "select_edge example_edges comp_b = Some (Slot ''x'' None, 2)"
  by (simp add: select_edge_def example_edges_def comp_b_def comp_a_def)

lemma select_edge_example_a: "select_edge example_edges comp_a = Some (Literal comp_a, 1)"
  by (simp add: select_edge_def example_edges_def comp_b_def comp_a_def)

lemma example_match_b:
  "node_Match example_env 0 [comp_b] (example_objs\<lparr>bound := b, handlers := h\<rparr>) =
     ((Some 2, Some [''x'' \<mapsto> [98]]), example_objs\<lparr>bound := b, handlers := h\<rparr>)"
  by (simp add: example_env_def example_objs_def BaseNode_Match_def select_edge_example_b)
    (simp_all add: comp_b_def)

lemma example_match_bb:
  "node_Match example_env 0 [comp_b, comp_b] example_objs = ((None, None), example_objs)"
  by (simp add: example_env_def example_objs_def BaseNode_Match_def select_edge_example_b
      select_edge_Nil)

lemma example_Attach:
  "Attach example_env [comp_app] (Some 7) example_tree = (Return None, attached_tree)"
  by (simp add: Attach_def example_env_def example_tree_def example_objs_def record_call_def
      attached_tree_def)






lemma Match_example:
  "fst (Match example_env [comp_a] example_tree) = Return (Some 1, Some Map.empty)"
  "fst (Match example_env [comp_b] example_tree) = Return (Some 2, Some [''x'' \<mapsto> [98]])"
  "fst (Match example_env [comp_b, comp_b] example_tree) = Return (None, None)"
  "fst (Match example_env [comp_a] (snd (Match example_env [comp_a] example_tree))) =
     Return (Some 1, Some Map.empty)"
  by (simp_all add: Match_def example_env_def example_tree_def example_objs_def BaseNode_Match_def
      select_edge_example_b select_edge_example_a select_edge_Nil record_call_def)
    (simp add: comp_b_def)

subsection \<open>Attach\<close>




















subsection \<open>Detach\<close>

text \<open>
  C2. After a successful \<open>Attach\<close>, a call of \<open>Detach\<close> asks the root for its prefix,
  unregisters the handler and then calls \<open>OnDetach\<close> on the root, and leaves
  \<open>Engine\<close> set; so a second call of \<open>Detach\<close> does all of it again: \<open>OnDetach\<close> is
  called twice on the root within one attach cycle, not once.
\<close>

theorem Detach_twice:
  assumes "Attach env pfx engine t0 = (Return None, t)"
  shows "\<exists>root eng p1 p2.
     Root t = Some root \<and> Engine t = Some eng \<and>
     Engine (snd (Detach env t)) = Some eng \<and>
     calls (snd (Detach env t)) =
       calls t @ [AttachedPrefix_call root, DetachHandler_call eng p1, OnDetach_call root] \<and>
     calls (snd (Detach env (snd (Detach env t)))) =
       calls t @ [AttachedPrefix_call root, DetachHandler_call eng p1, OnDetach_call root,
                  AttachedPrefix_call root, DetachHandler_call eng p2, OnDetach_call root]"
proof -
  obtain root eng where t: "Root t = Some root" "Engine t = Some eng"
    using assms
    by (auto simp: Attach_def record_call_def Let_def split: option.splits prod.splits)
  show ?thesis
    using t by (auto simp: Detach_def record_call_def Let_def split: prod.splits)
qed

theorem Detach_twice_witness:
  "Attach example_env [comp_app] (Some 7) example_tree = (Return None, attached_tree) \<and>
   Engine (snd (Detach example_env attached_tree)) = Some 7 \<and>
   calls (snd (Detach example_env (snd (Detach example_env attached_tree)))) =
     calls attached_tree @
       [AttachedPrefix_call 0, DetachHandler_call 7 [comp_app], OnDetach_call 0,
        AttachedPrefix_call 0, DetachHandler_call 7 [comp_app], OnDetach_call 0]"
proof -
  have d1: "Detach example_env attached_tree =
      (Return (), attached_tree\<lparr>objs := example_objs\<lparr>bound := Some [comp_app], handlers := []\<rparr>,
         calls := calls attached_tree @
           [AttachedPrefix_call 0, DetachHandler_call 7 [comp_app], OnDetach_call 0]\<rparr>)"
    by (simp add: Detach_def example_env_def attached_tree_def example_tree_def example_objs_def
        record_call_def Let_def)
  have d2: "Detach example_env (attached_tree\<lparr>objs := example_objs\<lparr>bound := Some [comp_app], handlers := []\<rparr>,
         calls := calls attached_tree @
           [AttachedPrefix_call 0, DetachHandler_call 7 [comp_app], OnDetach_call 0]\<rparr>) =
      (Return (), attached_tree\<lparr>objs := example_objs\<lparr>bound := Some [comp_app], handlers := []\<rparr>,
         calls := calls attached_tree @
           [AttachedPrefix_call 0, DetachHandler_call 7 [comp_app], OnDetach_call 0,
            AttachedPrefix_call 0, DetachHandler_call 7 [comp_app], OnDetach_call 0]\<rparr>)"
    by (simp add: Detach_def example_env_def attached_tree_def example_tree_def example_objs_def
        record_call_def Let_def)
  show ?thesis
    using Detach_twice [OF example_Attach] example_Attach d1 d2
    by (simp add: attached_tree_def example_tree_def)
qed

subsection \<open>PutNode\<close>

text \<open>
  C5. \<open>PutNode\<close> with an empty path on a tree that has a root fails with the error
  "schema node already exists" and leaves the tree as it was; with an empty path
  on a tree without a root it makes the node the root; with a non-empty path on
  a tree without a root it first creates a \<open>BaseNode\<close>, initialises it and makes
  it the root, and then hands the path and the node to that root's \<open>PutNode\<close>,
  whose result it returns.
\<close>

theorem PutNode_cases:
  "(length path = 0 \<and> Root t \<noteq> None \<longrightarrow>
      PutNode env path node t = (Return (Some (errorString ''schema node already exists'')), t)) \<and>
   (length path = 0 \<and> Root t = None \<longrightarrow>
      PutNode env path node t = (Return None, t\<lparr>Root := node\<rparr>)) \<and>
   (length path \<noteq> 0 \<and> Root t = None \<longrightarrow>
      (\<exists>b s1 err s3.
         BaseNode_new env (objs t) = (b, s1) \<and>
         node_PutNode env b path node (Init env b s1) = (err, s3) \<and>
         PutNode env path node t =
           (Return err,
            t\<lparr>Root := Some b, objs := s3,
              calls := calls t @ [BaseNode_new_call b, Init_call b, PutNode_call b path node]\<rparr>)))"
  by (auto simp: PutNode_def record_call_def Let_def split: option.splits prod.splits)

theorem PutNode_cases_witness:
  "PutNode example_env [] (Some 5) example_tree =
     (Return (Some (errorString ''schema node already exists'')), example_tree) \<and>
   PutNode example_env [] (Some 5) empty_tree = (Return None, empty_tree\<lparr>Root := Some 5\<rparr>) \<and>
   PutNode example_env [Literal comp_a] (Some 5) empty_tree =
     (Return None,
      empty_tree\<lparr>Root := Some 0, objs := \<lparr>nodes = [\<lparr>Chd = []\<rparr>], bound = None, handlers = []\<rparr>,
        calls := [BaseNode_new_call 0, Init_call 0, PutNode_call 0 [Literal comp_a] (Some 5)]\<rparr>)"
proof -
  have 1: "length ([] :: NamePattern) = 0 \<and> Root example_tree \<noteq> None"
    by (simp add: example_tree_def)
  have 2: "length ([] :: NamePattern) = 0 \<and> Root empty_tree = None"
    by (simp add: empty_tree_def)
  have 3: "length [Literal comp_a] \<noteq> 0 \<and> Root empty_tree = None"
    by (simp add: empty_tree_def)
  show ?thesis
    using 1 2 3 PutNode_cases [of "[]" example_tree example_env "Some 5"]
      PutNode_cases [of "[]" empty_tree example_env "Some 5"]
      PutNode_cases [of "[Literal comp_a]" empty_tree example_env "Some 5"]
    by (simp add: example_env_def empty_tree_def)
qed

subsection \<open>The Interest handler\<close>

text \<open>
  C8. For an Interest whose name ends in a component \<open>c\<close> of type
  ParametersSha256Digest or ImplicitSha256Digest (and \<open>TypeInvalidComponent\<close> is not
  that type), the handler matches the name without \<open>c\<close> against the root. When no
  node matches it returns having made no further call. When a node matches, with
  a Matching that is not the nil map, it calls \<open>OnInterest\<close> on that node with the
  Matching extended by the value of \<open>c\<close> at the key "params-sha256" or
  "sha256digest" respectively.
\<close>

theorem intHandler_digest:
  assumes "Name interest = cs @ [c]"
    and "Typ c = TypeParametersSha256DigestComponent \<or> Typ c = TypeImplicitSha256DigestComponent"
    and "TypeInvalidComponent env \<noteq> Typ c"
    and "Root t = Some root"
    and "node_Match env root cs (objs t) = ((node, matching), s1)"
  shows "(node = None \<longrightarrow>
            intHandler env interest rawInterest sigCovered reply deadline t =
              (Return (), t\<lparr>objs := s1, calls := calls t @ [Match_call root cs]\<rparr>)) \<and>
         (\<forall>n m. node = Some n \<and> matching = Some m \<longrightarrow>
            (let key = (if Typ c = TypeParametersSha256DigestComponent then ''params-sha256''
                        else ''sha256digest'');
                 m' = Some (m(key \<mapsto> Val c))
             in intHandler env interest rawInterest sigCovered reply deadline t =
                  (Return (),
                   t\<lparr>objs := OnInterest env n interest rawInterest sigCovered reply deadline m' s1,
                     calls := calls t @
                       [Match_call root cs,
                        OnInterest_call n interest rawInterest sigCovered reply deadline m']\<rparr>)))"
  using assms
  by (auto simp: intHandler_def Let_def record_call_def add_digest_def set_matching_def
      TypeParametersSha256DigestComponent_def TypeImplicitSha256DigestComponent_def)

theorem intHandler_digest_witness:
  "intHandler example_env \<lparr>Name = [comp_b, comp_digest]\<rparr> [[5]] [[7]] 3 100 example_tree =
     (Return (),
      example_tree\<lparr>calls :=
        [Match_call 0 [comp_b],
         OnInterest_call 2 \<lparr>Name = [comp_b, comp_digest]\<rparr> [[5]] [[7]] 3 100
           (Some [''x'' \<mapsto> [98], ''params-sha256'' \<mapsto> [222, 173]])]\<rparr>) \<and>
   intHandler example_env \<lparr>Name = [comp_b, comp_b, comp_digest]\<rparr> [[5]] [[7]] 3 100 example_tree =
     (Return (), example_tree\<lparr>calls := [Match_call 0 [comp_b, comp_b]]\<rparr>)"
proof -
  have ty: "Typ comp_digest = TypeParametersSha256DigestComponent \<or>
            Typ comp_digest = TypeImplicitSha256DigestComponent"
    by (simp add: comp_digest_def TypeParametersSha256DigestComponent_def)
  have inv: "TypeInvalidComponent example_env \<noteq> Typ comp_digest"
    by (simp add: comp_digest_def example_env_def)
  have root: "Root example_tree = Some 0"
    by (simp add: example_tree_def)
  have m1: "node_Match example_env 0 [comp_b] (objs example_tree) =
            ((Some 2, Some [''x'' \<mapsto> [98]]), example_objs)"
    using example_match_b [of "[]" None] by (simp add: example_tree_def example_objs_def)
  have m2: "node_Match example_env 0 [comp_b, comp_b] (objs example_tree) = ((None, None), example_objs)"
    using example_match_bb by (simp add: example_tree_def)
  have n1: "Name \<lparr>Name = [comp_b, comp_digest]\<rparr> = [comp_b] @ [comp_digest]"
    by simp
  have n2: "Name \<lparr>Name = [comp_b, comp_b, comp_digest]\<rparr> = [comp_b, comp_b] @ [comp_digest]"
    by simp
  show ?thesis
    using intHandler_digest [OF n1 ty inv root m1, of "[[5]]" "[[7]]" 3 100]
      intHandler_digest [OF n2 ty inv root m2, of "[[5]]" "[[7]]" 3 100]
    by (simp add: Let_def comp_digest_def TypeParametersSha256DigestComponent_def
        example_env_def example_tree_def)
qed

lemma add_digest_no_index_panic: "add_digest i c m \<noteq> Panic IndexOutOfRange"
  by (auto simp: add_digest_def set_matching_def split: option.splits)

text \<open>
  C9. The handler reads the last component of the name before anything else:
  on a name of no component it panics on the index, having called nothing, and
  on every name of at least one component the index is in range. So it panics
  on the index exactly when the name is empty.
\<close>

theorem intHandler_index_panic:
  "((fst (intHandler env interest rawInterest sigCovered reply deadline t) = Panic IndexOutOfRange) =
    (Name interest = [])) \<and>
   (Name interest = [] \<longrightarrow>
      snd (intHandler env interest rawInterest sigCovered reply deadline t) = t)"
proof (cases "Name interest = []")
  case True
  then show ?thesis by (simp add: intHandler_def)
next
  case False
  then show ?thesis
    using add_digest_no_index_panic
    by (auto simp: intHandler_def Let_def split: option.splits prod.splits outcome.splits)
qed

theorem intHandler_index_panic_witness:
  "intHandler example_env \<lparr>Name = []\<rparr> [] [] 3 100 example_tree =
     (Panic IndexOutOfRange, example_tree) \<and>
   fst (intHandler example_env \<lparr>Name = [comp_b]\<rparr> [] [] 3 100 example_tree) \<noteq> Panic IndexOutOfRange"
  using intHandler_index_panic [of example_env "\<lparr>Name = []\<rparr>" "[]" "[]" 3 100 example_tree]
    intHandler_index_panic [of example_env "\<lparr>Name = [comp_b]\<rparr>" "[]" "[]" 3 100 example_tree]
  by (simp add: prod_eq_iff)

subsection \<open>Match\<close>

lemma edge_chosen_select: "edge_chosen chd c e = (select_edge chd c = Some e)"
proof
  assume "edge_chosen chd c e"
  then show "select_edge chd c = Some e"
  proof cases
    case (literal_first i r)
    have "find (\<lambda>e. is_Literal (fst e) \<and> edge_accepts (fst e) c) chd = Some e"
      unfolding find_Some_iff
    proof (intro exI [of _ i] conjI allI impI)
      show "i < length chd" by fact
      show "is_Literal (fst (chd ! i))" "edge_accepts (fst (chd ! i)) c" "e = chd ! i"
        using literal_first by auto
      fix j assume "j < i"
      then have "\<forall>r'. chd ! j \<noteq> (Literal c, r')"
        using literal_first(4) by blast
      then show "\<not> (is_Literal (fst (chd ! j)) \<and> edge_accepts (fst (chd ! j)) c)"
        by (cases "chd ! j"; cases "fst (chd ! j)") auto
    qed
    then show ?thesis by (simp add: select_edge_def)
  next
    case (slot_in_order i tag ty r)
    have "\<not> (is_Literal (fst x) \<and> edge_accepts (fst x) c)" if x: "x \<in> set chd" for x
    proof -
      obtain j where "j < length chd" "chd ! j = x"
        using x by (auto simp: in_set_conv_nth)
      then have "\<forall>r'. x \<noteq> (Literal c, r')"
        using slot_in_order(5) by blast
      then show ?thesis
        by (cases x; cases "fst x") auto
    qed
    then have none: "find (\<lambda>e. is_Literal (fst e) \<and> edge_accepts (fst e) c) chd = None"
      by (auto simp: find_None_iff)
    have "find (\<lambda>e. \<not> is_Literal (fst e) \<and> edge_accepts (fst e) c) chd = Some e"
      unfolding find_Some_iff
    proof (intro exI [of _ i] conjI allI impI)
      show "i < length chd" by fact
      show "\<not> is_Literal (fst (chd ! i))" "edge_accepts (fst (chd ! i)) c" "e = chd ! i"
        using slot_in_order by auto
      fix j assume "j < i"
      then have "\<forall>tag' ty' r'. chd ! j = (Slot tag' ty', r') \<longrightarrow> \<not> edge_accepts (Slot tag' ty') c"
        using slot_in_order(6) by blast
      then show "\<not> (\<not> is_Literal (fst (chd ! j)) \<and> edge_accepts (fst (chd ! j)) c)"
        by (cases "chd ! j"; cases "fst (chd ! j)") auto
    qed
    then show ?thesis using none by (simp add: select_edge_def)
  qed
next
  assume s: "select_edge chd c = Some e"
  show "edge_chosen chd c e"
  proof (cases "find (\<lambda>e. is_Literal (fst e) \<and> edge_accepts (fst e) c) chd")
    case None
    then have nolit: "\<forall>x\<in>set chd. \<not> (is_Literal (fst x) \<and> edge_accepts (fst x) c)"
      by (auto simp: find_None_iff)
    from None s have "find (\<lambda>e. \<not> is_Literal (fst e) \<and> edge_accepts (fst e) c) chd = Some e"
      by (simp add: select_edge_def)
    then obtain i where i: "i < length chd" "chd ! i = e" "\<not> is_Literal (fst e)"
      "edge_accepts (fst e) c"
      "\<forall>j<i. \<not> (\<not> is_Literal (fst (chd ! j)) \<and> edge_accepts (fst (chd ! j)) c)"
      by (auto simp: find_Some_iff)
    obtain tag ty r where e: "e = (Slot tag ty, r)"
      using i(3) by (cases e; cases "fst e") auto
    have "edge_chosen chd c (Slot tag ty, r)"
    proof (rule slot_in_order [of i])
      show "i < length chd" by fact
      show "chd ! i = (Slot tag ty, r)" using i e by simp
      show "edge_accepts (Slot tag ty) c"
        using i(4) e by simp
      show "\<forall>j<length chd. \<forall>r'. chd ! j \<noteq> (Literal c, r')"
      proof (intro allI impI)
        fix j r' assume "j < length chd"
        then have "chd ! j \<in> set chd" by simp
        then show "chd ! j \<noteq> (Literal c, r')"
          using nolit by force
      qed
      show "\<forall>j<i. \<forall>tag' ty' r'. chd ! j = (Slot tag' ty', r') \<longrightarrow> \<not> edge_accepts (Slot tag' ty') c"
        using i(5) by force
    qed
    then show ?thesis using e by simp
  next
    case (Some e')
    with s have "e' = e" by (simp add: select_edge_def)
    with Some obtain i where i: "i < length chd" "chd ! i = e" "is_Literal (fst e)"
      "edge_accepts (fst e) c"
      "\<forall>j<i. \<not> (is_Literal (fst (chd ! j)) \<and> edge_accepts (fst (chd ! j)) c)"
      by (auto simp: find_Some_iff)
    obtain c' r where e: "e = (Literal c', r)"
      using i(3) by (cases e; cases "fst e") auto
    have c': "c' = c" using i(4) e by simp
    have "edge_chosen chd c (Literal c, r)"
    proof (rule literal_first [of i])
      show "i < length chd" by fact
      show "chd ! i = (Literal c, r)" using i e c' by simp
      show "\<forall>j<i. \<forall>r'. chd ! j \<noteq> (Literal c, r')"
        using i(5) by force
    qed
    then show ?thesis using e c' by simp
  qed
qed

lemma matches_walk: "matches ns r name m res = (walk ns r name m = Some res)"
proof (induction name arbitrary: r m)
  case Nil
  show ?case
    by (auto intro: matches.intros elim: matches.cases)
next
  case (Cons c cs)
  show ?case
  proof
    assume "matches ns r (c # cs) m res"
    then show "walk ns r (c # cs) m = Some res"
    proof cases
      case (matches_literal c' r')
      then have "walk ns r' cs m = Some res"
        using Cons.IH by blast
      then show ?thesis
        using matches_literal by (simp add: edge_chosen_select)
    next
      case (matches_slot tag ty r')
      then have "walk ns r' cs (m(tag \<mapsto> Val c)) = Some res"
        using Cons.IH by blast
      then show ?thesis
        using matches_slot by (simp add: edge_chosen_select)
    qed
  next
    assume w: "walk ns r (c # cs) m = Some res"
    then have r: "r < length ns"
      by (auto split: if_splits)
    then obtain e where e: "select_edge (Chd (ns ! r)) c = Some e"
      and rest: "walk ns (snd e) cs (bind_slot (fst e) c m) = Some res"
      using w by (auto split: option.splits)
    have ch: "edge_chosen (Chd (ns ! r)) c e"
      using e by (simp add: edge_chosen_select)
    have m': "matches ns (snd e) cs (bind_slot (fst e) c m) res"
      using rest Cons.IH by blast
    show "matches ns r (c # cs) m res"
    proof (cases e)
      case (Pair pat r')
      show ?thesis
      proof (cases pat)
        case (Literal c')
        show ?thesis
          using r ch m' Pair Literal by (intro matches_literal [of r ns c c' r']) auto
      next
        case (Slot tag ty)
        show ?thesis
          using r ch m' Pair Slot by (intro matches_slot [of r ns c tag ty r']) auto
      qed
    qed
  qed
qed

lemma edge_chosen_unique:
  assumes "edge_chosen chd c e" and "edge_chosen chd c e'"
  shows "e = e'"
  using assms(1)
proof cases
  case (literal_first i r)
  note mine = this
  from assms(2) show ?thesis
  proof cases
    case (literal_first i' r')
    note other = this
    have "\<not> i < i'" using other(4) mine(3) by blast
    moreover have "\<not> i' < i" using mine(4) other(3) by blast
    ultimately have "i = i'" by linarith
    then show ?thesis
      using mine other by simp
  next
    case (slot_in_order i' tag ty r')
    then show ?thesis
      using mine by blast
  qed
next
  case (slot_in_order i tag ty r)
  note mine = this
  from assms(2) show ?thesis
  proof cases
    case (literal_first i' r')
    then show ?thesis
      using mine by blast
  next
    case (slot_in_order i' tag' ty' r')
    note other = this
    have "\<not> i < i'" using other(6) mine(3,4) by blast
    moreover have "\<not> i' < i" using mine(6) other(3,4) by blast
    ultimately have "i = i'" by linarith
    then show ?thesis
      using mine other by simp
  qed
qed

lemma matches_unique:
  assumes "matches ns r name m res" and "matches ns r name m res'"
  shows "res = res'"
  using assms
proof (induction arbitrary: res' rule: matches.induct)
  case (matches_end r m)
  then show ?case
    by (auto elim: matches.cases)
next
  case (matches_literal r c c' r' cs m res)
  note outer = this
  from outer(5) show ?case
  proof cases
    case (matches_literal c'' r'')
    then have "(Literal c', r') = (Literal c'', r'')"
      using outer(2) edge_chosen_unique by blast
    then have "matches ns r' cs m res'"
      using matches_literal by simp
    then show ?thesis
      by (rule outer(4))
  next
    case (matches_slot tag ty r'')
    then have "(Literal c', r') = (Slot tag ty, r'')"
      using outer(2) edge_chosen_unique by blast
    then show ?thesis by simp
  qed
next
  case (matches_slot r c tag ty r' cs m res)
  note outer = this
  from outer(5) show ?case
  proof cases
    case (matches_literal c'' r'')
    then have "(Slot tag ty, r') = (Literal c'', r'')"
      using outer(2) edge_chosen_unique by blast
    then show ?thesis by simp
  next
    case (matches_slot tag' ty' r'')
    then have "(Slot tag ty, r') = (Slot tag' ty', r'')"
      using outer(2) edge_chosen_unique by blast
    then have eq: "tag' = tag" "r'' = r'"
      by simp_all
    have "matches ns r' cs (m(tag \<mapsto> Val c)) res'"
      using matches_slot(3) unfolding eq .
    then show ?thesis
      by (rule outer(4))
  qed
qed

lemma Match_reads_only:
  assumes "node_Match env = BaseNode_Match"
  shows "Root (snd (Match env name t)) = Root t \<and> objs (snd (Match env name t)) = objs t"
  using assms
  by (auto simp: Match_def BaseNode_Match_def record_call_def Let_def
      split: option.splits prod.splits)

lemma Match_depends_on:
  assumes "node_Match env = BaseNode_Match"
    and "Root t2 = Root t" and "nodes (objs t2) = nodes (objs t)"
  shows "fst (Match env name t2) = fst (Match env name t)"
  using assms
  by (auto simp: Match_def BaseNode_Match_def record_call_def Let_def
      split: option.splits prod.splits)

lemma Match_matches:
  assumes "node_Match env = BaseNode_Match" and "Root t = Some root"
  shows "(fst (Match env name t) = Return (Some n, Some m)) =
         matches (nodes (objs t)) root name Map.empty (n, m)"
    and "(fst (Match env name t) = Return (None, None)) =
         (\<forall>res. \<not> matches (nodes (objs t)) root name Map.empty res)"
  using assms
  by (auto simp: Match_def BaseNode_Match_def record_call_def Let_def matches_walk
      split: option.splits prod.splits)

lemma first_slot_wins:
  assumes "r < length ns" and "i < length (Chd (ns ! r))"
    and "Chd (ns ! r) ! i = (Slot tag ty, r1)" and "edge_accepts (Slot tag ty) c"
    and "\<forall>j<length (Chd (ns ! r)). \<forall>r'. Chd (ns ! r) ! j \<noteq> (Literal c, r')"
    and "\<forall>j<i. \<forall>tag' ty' r'. Chd (ns ! r) ! j = (Slot tag' ty', r') \<longrightarrow>
           \<not> edge_accepts (Slot tag' ty') c"
  shows "matches ns r (c # cs) m res = matches ns r1 cs (m(tag \<mapsto> Val c)) res"
proof -
  have ch: "edge_chosen (Chd (ns ! r)) c (Slot tag ty, r1)"
    using assms(2-6) by (rule slot_in_order)
  show ?thesis
  proof
    assume "matches ns r (c # cs) m res"
    then show "matches ns r1 cs (m(tag \<mapsto> Val c)) res"
    proof cases
      case (matches_literal c' r')
      then show ?thesis
        using edge_chosen_unique [OF ch] by blast
    next
      case (matches_slot tag' ty' r')
      then have "(Slot tag ty, r1) = (Slot tag' ty', r')"
        using edge_chosen_unique [OF ch] by blast
      then show ?thesis
        using matches_slot by simp
    qed
  next
    assume "matches ns r1 cs (m(tag \<mapsto> Val c)) res"
    then show "matches ns r (c # cs) m res"
      by (rule matches.matches_slot [OF assms(1) ch])
  qed
qed

text \<open>
  C6. With the matching modelled from the spec for \<open>Root.Match\<close>, a second call of
  \<open>Match\<close> on the same name returns what the first returned, and the result depends
  on the root, the nodes and the name only. \<open>Match\<close> returns a node and a matching
  exactly when the walk of the spec from the root, which at each node follows a
  literal child for the component when there is one and otherwise the first
  variable-slot child, in insertion order, that accepts it, ends there with that
  matching, and returns no node exactly when there is no such walk. A name has
  at most one such walk. In particular, where no literal child of the root is for
  the first component, \<open>Match\<close> goes on from the child of the first slot that
  accepts it, with the value of the component bound to the tag of that slot.
\<close>

theorem Match_deterministic:
  assumes "node_Match env = BaseNode_Match" and "Root t = Some root"
  shows "fst (Match env name (snd (Match env name t))) = fst (Match env name t) \<and>
         (Root t2 = Root t \<and> nodes (objs t2) = nodes (objs t) \<longrightarrow>
            fst (Match env name t2) = fst (Match env name t)) \<and>
         ((fst (Match env name t) = Return (Some n, Some m)) =
            matches (nodes (objs t)) root name Map.empty (n, m)) \<and>
         ((fst (Match env name t) = Return (None, None)) =
            (\<forall>res. \<not> matches (nodes (objs t)) root name Map.empty res)) \<and>
         (\<forall>r nm m0 res res'. matches (nodes (objs t)) r nm m0 res \<and>
            matches (nodes (objs t)) r nm m0 res' \<longrightarrow> res = res') \<and>
         (\<forall>c cs i tag ty r1.
            root < length (nodes (objs t)) \<and>
            i < length (Chd (nodes (objs t) ! root)) \<and>
            Chd (nodes (objs t) ! root) ! i = (Slot tag ty, r1) \<and>
            edge_accepts (Slot tag ty) c \<and>
            (\<forall>j<length (Chd (nodes (objs t) ! root)). \<forall>r'.
               Chd (nodes (objs t) ! root) ! j \<noteq> (Literal c, r')) \<and>
            (\<forall>j<i. \<forall>tag' ty' r'. Chd (nodes (objs t) ! root) ! j = (Slot tag' ty', r') \<longrightarrow>
               \<not> edge_accepts (Slot tag' ty') c) \<longrightarrow>
            ((fst (Match env (c # cs) t) = Return (Some n, Some m)) =
               matches (nodes (objs t)) r1 cs [tag \<mapsto> Val c] (n, m)))"
proof -
  let ?ns = "nodes (objs t)"
  have 1: "fst (Match env name (snd (Match env name t))) = fst (Match env name t)"
    using Match_reads_only [OF assms(1), of name t] by (intro Match_depends_on [OF assms(1)]) auto
  have 2: "Root t2 = Root t \<and> nodes (objs t2) = ?ns \<longrightarrow>
            fst (Match env name t2) = fst (Match env name t)"
    using Match_depends_on [OF assms(1)] by blast
  have 3: "(fst (Match env name t) = Return (Some n, Some m)) =
            matches ?ns root name Map.empty (n, m)"
    by (rule Match_matches(1) [OF assms])
  have 4: "(fst (Match env name t) = Return (None, None)) =
            (\<forall>res. \<not> matches ?ns root name Map.empty res)"
    by (rule Match_matches(2) [OF assms])
  have 5: "\<forall>r nm m0 res res'. matches ?ns r nm m0 res \<and> matches ?ns r nm m0 res' \<longrightarrow> res = res'"
    using matches_unique by blast
  have 6: "\<forall>c cs i tag ty r1.
            root < length ?ns \<and>
            i < length (Chd (?ns ! root)) \<and>
            Chd (?ns ! root) ! i = (Slot tag ty, r1) \<and>
            edge_accepts (Slot tag ty) c \<and>
            (\<forall>j<length (Chd (?ns ! root)). \<forall>r'. Chd (?ns ! root) ! j \<noteq> (Literal c, r')) \<and>
            (\<forall>j<i. \<forall>tag' ty' r'. Chd (?ns ! root) ! j = (Slot tag' ty', r') \<longrightarrow>
               \<not> edge_accepts (Slot tag' ty') c) \<longrightarrow>
            ((fst (Match env (c # cs) t) = Return (Some n, Some m)) =
               matches ?ns r1 cs [tag \<mapsto> Val c] (n, m))"
  proof (intro allI impI, elim conjE)
    fix c cs i tag ty r1
    assume h: "root < length ?ns" "i < length (Chd (?ns ! root))"
      "Chd (?ns ! root) ! i = (Slot tag ty, r1)" "edge_accepts (Slot tag ty) c"
      "\<forall>j<length (Chd (?ns ! root)). \<forall>r'. Chd (?ns ! root) ! j \<noteq> (Literal c, r')"
      "\<forall>j<i. \<forall>tag' ty' r'. Chd (?ns ! root) ! j = (Slot tag' ty', r') \<longrightarrow>
               \<not> edge_accepts (Slot tag' ty') c"
    show "(fst (Match env (c # cs) t) = Return (Some n, Some m)) =
               matches ?ns r1 cs [tag \<mapsto> Val c] (n, m)"
      using Match_matches(1) [OF assms, of "c # cs" n m]
        first_slot_wins [OF h, of cs Map.empty "(n, m)"]
      by simp
  qed
  show ?thesis
    using 1 2 3 4 5 6 by (intro conjI) assumption+
qed

theorem Match_deterministic_witness:
  "node_Match example_env = BaseNode_Match \<and> Root example_tree = Some 0 \<and>
   fst (Match example_env [comp_a] example_tree) = Return (Some 1, Some Map.empty) \<and>
   fst (Match example_env [comp_a] (snd (Match example_env [comp_a] example_tree))) =
     Return (Some 1, Some Map.empty) \<and>
   matches (nodes (objs example_tree)) 0 [comp_a] Map.empty (1, Map.empty) \<and>
   fst (Match example_env [comp_b] example_tree) = Return (Some 2, Some [''x'' \<mapsto> [98]]) \<and>
   matches (nodes (objs example_tree)) 0 [comp_b] Map.empty (2, [''x'' \<mapsto> [98]]) \<and>
   fst (Match example_env [comp_b, comp_b] example_tree) = Return (None, None)"
proof -
  have e: "node_Match example_env = BaseNode_Match"
    by (simp add: example_env_def)
  have r: "Root example_tree = Some 0"
    by (simp add: example_tree_def)
  have a: "matches (nodes (objs example_tree)) 0 [comp_a] Map.empty (1, Map.empty)"
    using Match_deterministic [OF e r, of "[comp_a]" example_tree 1 Map.empty] Match_example(1)
    by blast
  have b: "matches (nodes (objs example_tree)) 0 [comp_b] Map.empty (2, [''x'' \<mapsto> [98]])"
    using Match_deterministic [OF e r, of "[comp_b]" example_tree 2 "[''x'' \<mapsto> [98]]"]
      Match_example(2)
    by blast
  show ?thesis
    using e r a b Match_example by simp
qed

end
